theory Spec2Isabelle
  imports Main "HOL-Library.Word"
begin

unbundle bit_operations_syntax

section \<open>Faults and results\<close>

text \<open>
  The C++ operations can leave defined behaviour in three ways: a remainder by a zero
  \<^verbatim>\<open>table_size\<close>, a \<^verbatim>\<open>table[index]\<close> outside the vector, and a member access through a null
  \<^verbatim>\<open>AVLNode*\<close>. Each is a value of \<open>fault\<close>; a computation returns \<open>Inl\<close> of the fault or
  \<open>Inr\<close> of its result. Computations that contain a loop or a recursion whose termination
  is not structural are wrapped in \<open>option\<close>: \<open>None\<close> means that no result was produced.
\<close>

datatype fault = DivisionByZero | IndexOutOfRange | NullDereference

type_synonym 'a comp = "(fault + 'a) option"

text \<open>\<^verbatim>\<open>table[index]\<close> on a \<^verbatim>\<open>std::vector\<close>.\<close>

definition slot_at :: "'a list \<Rightarrow> nat \<Rightarrow> fault + 'a" where
  "slot_at xs i = (if i < length xs then Inr (xs ! i) else Inl IndexOutOfRange)"

section \<open>The hashing utility of \<^verbatim>\<open>HashTableBase\<close>\<close>

text \<open>
  The multiplicative-mix version of \<^verbatim>\<open>hash_function\<close>. The key is a C++ \<^verbatim>\<open>int\<close>;
  \<^verbatim>\<open>static_cast<unsigned int>(key)\<close> is its residue modulo \<open>2 ^ 32\<close>, all arithmetic on
  \<^verbatim>\<open>ukey\<close> is 32-bit unsigned, and the final \<^verbatim>\<open>%\<close> is on \<^verbatim>\<open>size_t\<close>.
\<close>

definition hash_function :: "int \<Rightarrow> nat \<Rightarrow> fault + nat" where
  "hash_function key table_size =
     (let ukey0 = (word_of_int key :: 32 word);
          ukey1 = (drop_bit 16 ukey0 XOR ukey0) * 0x45d9f3b;
          ukey2 = (drop_bit 16 ukey1 XOR ukey1) * 0x45d9f3b;
          ukey3 = drop_bit 16 ukey2 XOR ukey2
      in if table_size = 0 then Inl DivisionByZero else Inr (unat ukey3 mod table_size))"

text \<open>
  The baseline version, \<^verbatim>\<open>std::hash<int>{}(key) % table_size\<close>. The value of
  \<^verbatim>\<open>std::hash<int>\<close> is left to the C++ implementation, so it is the parameter \<open>std_hash\<close>.
\<close>

definition hash_function_std :: "(int \<Rightarrow> nat) \<Rightarrow> int \<Rightarrow> nat \<Rightarrow> fault + nat" where
  "hash_function_std std_hash key table_size =
     (if table_size = 0 then Inl DivisionByZero else Inr (std_hash key mod table_size))"

text \<open>
  Both tables call the inherited \<^verbatim>\<open>hash_function\<close>; the repository holds the versions
  above. The table operations below take the hashing utility as the parameter \<open>hf\<close>, and
  the theorems about them ask only for what both versions provide: a fault exactly for
  capacity zero, and otherwise an index below the capacity.
\<close>

type_synonym hashfn = "int \<Rightarrow> nat \<Rightarrow> fault + nat"

definition hash_contract :: "hashfn \<Rightarrow> bool" where
  "hash_contract hf \<longleftrightarrow>
     (\<forall>k. hf k 0 = Inl DivisionByZero) \<and> (\<forall>k n. 0 < n \<longrightarrow> (\<exists>i<n. hf k n = Inr i))"

section \<open>Open addressing with linear probing\<close>

datatype EntryState = EMPTY | OCCUPIED | DELETED

record Entry =
  key :: int
  val :: int
  state :: EntryState

text \<open>
  The three data members shared by \<^verbatim>\<open>OpenAddressingHashTable\<close> and \<^verbatim>\<open>AVLHashTable\<close>.
  The \<^verbatim>\<open>size_t\<close> members are natural numbers: neither exceeds the length of an allocated
  vector by more than one, so increments and the doubling do not wrap.
\<close>

record 'slot HashTable =
  table :: "'slot list"
  table_size :: nat
  current_size :: nat

text \<open>\<^verbatim>\<open>current_size--\<close> on a \<^verbatim>\<open>size_t\<close> (64 bits): zero wraps around.\<close>

definition decrement :: "nat \<Rightarrow> nat" where
  "decrement n = (if n = 0 then 2 ^ 64 - 1 else n - 1)"

text \<open>The constructor \<^verbatim>\<open>OpenAddressingHashTable(initial_size)\<close>.\<close>

definition oa_new :: "nat \<Rightarrow> Entry HashTable" where
  "oa_new initial_size =
     \<lparr>table = replicate initial_size \<lparr>key = 0, val = 0, state = EMPTY\<rparr>,
      table_size = initial_size, current_size = 0\<rparr>"

text \<open>
  The \<^verbatim>\<open>while\<close> loop of \<^verbatim>\<open>probe\<close>, entered with \<open>index\<close>. It is a partial function: for
  arguments that no table can produce (an \<open>original_index\<close> outside the table) the loop
  need not end.
\<close>

partial_function (option) probe_loop ::
  "Entry list \<Rightarrow> nat \<Rightarrow> int \<Rightarrow> nat \<Rightarrow> nat \<Rightarrow> (fault + nat) option" where
  "probe_loop tbl n k original_index index =
     (case slot_at tbl index of
        Inl f \<Rightarrow> Some (Inl f)
      | Inr e \<Rightarrow>
          if state e \<noteq> EMPTY \<and> (state e = DELETED \<or> key e \<noteq> k) then
            (if n = 0 then Some (Inl DivisionByZero)
             else if (index + 1) mod n = original_index then Some (Inr ((index + 1) mod n))
             else probe_loop tbl n k original_index ((index + 1) mod n))
          else Some (Inr index))"

definition probe :: "hashfn \<Rightarrow> Entry HashTable \<Rightarrow> int \<Rightarrow> nat comp" where
  "probe hf t k =
     (case hf k (table_size t) of
        Inl f \<Rightarrow> Some (Inl f)
      | Inr index \<Rightarrow> probe_loop (table t) (table_size t) k index index)"

text \<open>
  \<^verbatim>\<open>insert\<close> and \<^verbatim>\<open>resize\<close> call each other. The first argument bounds the depth of nested
  \<^verbatim>\<open>insert\<close> calls; \<open>None\<close> is returned when it is used up. \<open>oa_resize_loop\<close> is the
  range-\<^verbatim>\<open>for\<close> of \<^verbatim>\<open>resize\<close> over the old table, which ignores the flag that \<^verbatim>\<open>insert\<close>
  returns. The test \<^verbatim>\<open>static_cast<double>(current_size) / table_size > 0.5\<close> is exact for
  sizes below \<open>2 ^ 53\<close> and is written \<open>table_size < 2 * current_size\<close>; for capacity zero
  both are false when the table is empty.
\<close>

fun oa_insert :: "nat \<Rightarrow> hashfn \<Rightarrow> Entry HashTable \<Rightarrow> int \<Rightarrow> int \<Rightarrow> (bool \<times> Entry HashTable) comp"
  and oa_resize :: "nat \<Rightarrow> hashfn \<Rightarrow> Entry HashTable \<Rightarrow> Entry HashTable comp"
  and oa_resize_loop :: "nat \<Rightarrow> hashfn \<Rightarrow> Entry list \<Rightarrow> Entry HashTable \<Rightarrow> Entry HashTable comp"
  where
  "oa_insert 0 hf t k v = None"
| "oa_insert (Suc depth) hf t k v =
     (case (if table_size t < 2 * current_size t then oa_resize depth hf t else Some (Inr t)) of
        None \<Rightarrow> None
      | Some (Inl f) \<Rightarrow> Some (Inl f)
      | Some (Inr t1) \<Rightarrow>
          (case probe hf t1 k of
             None \<Rightarrow> None
           | Some (Inl f) \<Rightarrow> Some (Inl f)
           | Some (Inr index) \<Rightarrow>
               (case slot_at (table t1) index of
                  Inl f \<Rightarrow> Some (Inl f)
                | Inr e \<Rightarrow>
                    if state e = OCCUPIED \<and> key e = k then
                      Some (Inr (True, t1\<lparr>table := (table t1)[index := e\<lparr>val := v\<rparr>]\<rparr>))
                    else if state e \<noteq> OCCUPIED then
                      Some (Inr (True,
                        t1\<lparr>table := (table t1)[index := \<lparr>key = k, val = v, state = OCCUPIED\<rparr>],
                           current_size := current_size t1 + 1\<rparr>))
                    else Some (Inr (False, t1)))))"
| "oa_resize depth hf t =
     oa_resize_loop depth hf (table t)
       (t\<lparr>table_size := 2 * table_size t,
          table := replicate (2 * table_size t) \<lparr>key = 0, val = 0, state = EMPTY\<rparr>,
          current_size := 0\<rparr>)"
| "oa_resize_loop depth hf [] t = Some (Inr t)"
| "oa_resize_loop depth hf (entry # old_table) t =
     (if state entry = OCCUPIED then
        (case oa_insert depth hf t (key entry) (val entry) of
           None \<Rightarrow> None
         | Some (Inl f) \<Rightarrow> Some (Inl f)
         | Some (Inr (_, t1)) \<Rightarrow> oa_resize_loop depth hf old_table t1)
      else oa_resize_loop depth hf old_table t)"

definition oa_remove :: "hashfn \<Rightarrow> Entry HashTable \<Rightarrow> int \<Rightarrow> (bool \<times> Entry HashTable) comp" where
  "oa_remove hf t k =
     (case probe hf t k of
        None \<Rightarrow> None
      | Some (Inl f) \<Rightarrow> Some (Inl f)
      | Some (Inr index) \<Rightarrow>
          (case slot_at (table t) index of
             Inl f \<Rightarrow> Some (Inl f)
           | Inr e \<Rightarrow>
               if state e = OCCUPIED \<and> key e = k then
                 Some (Inr (True,
                   t\<lparr>table := (table t)[index := e\<lparr>state := DELETED\<rparr>],
                     current_size := decrement (current_size t)\<rparr>))
               else Some (Inr (False, t))))"

text \<open>
  \<^verbatim>\<open>find\<close> returns \<open>Some v\<close> when the C++ returns true after storing \<open>v\<close> through the
  reference, and \<open>None\<close> when it returns false and leaves the reference alone.
\<close>

definition oa_find :: "hashfn \<Rightarrow> Entry HashTable \<Rightarrow> int \<Rightarrow> int option comp" where
  "oa_find hf t k =
     (case probe hf t k of
        None \<Rightarrow> None
      | Some (Inl f) \<Rightarrow> Some (Inl f)
      | Some (Inr index) \<Rightarrow>
          (case slot_at (table t) index of
             Inl f \<Rightarrow> Some (Inl f)
           | Inr e \<Rightarrow>
               if state e = OCCUPIED \<and> key e = k then Some (Inr (Some (val e)))
               else Some (Inr None)))"

definition oa_clear :: "Entry HashTable \<Rightarrow> Entry HashTable" where
  "oa_clear t = t\<lparr>table := map (\<lambda>entry. entry\<lparr>state := EMPTY\<rparr>) (table t), current_size := 0\<rparr>"

definition oa_size :: "Entry HashTable \<Rightarrow> nat" where
  "oa_size t = current_size t"

section \<open>Buckets of AVL trees\<close>

text \<open>
  An \<^verbatim>\<open>AVLNode*\<close>: \<open>Null\<close> is \<^verbatim>\<open>nullptr\<close>, and \<open>Node key value height left right\<close> is a
  node that owns its two subtrees. No node is shared between two trees, so the pointer
  structure is the tree.
\<close>

datatype AVLNode = Null | Node int int int AVLNode AVLNode

fun get_height :: "AVLNode \<Rightarrow> int" where
  "get_height Null = 0"
| "get_height (Node k v h l r) = h"

fun get_balance :: "AVLNode \<Rightarrow> int" where
  "get_balance Null = 0"
| "get_balance (Node k v h l r) = get_height l - get_height r"

fun update_height :: "AVLNode \<Rightarrow> AVLNode" where
  "update_height Null = Null"
| "update_height (Node k v h l r) = Node k v (1 + max (get_height l) (get_height r)) l r"

text \<open>
  \<^verbatim>\<open>rotate_right(y)\<close> reads \<^verbatim>\<open>y->left\<close> and \<^verbatim>\<open>x->right\<close> with \<^verbatim>\<open>x = y->left\<close>; when \<open>y\<close> or
  \<open>x\<close> is null that is a null dereference. \<^verbatim>\<open>rotate_left\<close> is its mirror image.
\<close>

fun rotate_right :: "AVLNode \<Rightarrow> fault + AVLNode" where
  "rotate_right (Node ky vy hy (Node kx vx hx t1 t2) t3) =
     Inr (update_height (Node kx vx hx t1 (update_height (Node ky vy hy t2 t3))))"
| "rotate_right _ = Inl NullDereference"

fun rotate_left :: "AVLNode \<Rightarrow> fault + AVLNode" where
  "rotate_left (Node kx vx hx t1 (Node ky vy hy t2 t3)) =
     Inr (update_height (Node ky vy hy (update_height (Node kx vx hx t1 t2)) t3))"
| "rotate_left _ = Inl NullDereference"

text \<open>
  The part of \<^verbatim>\<open>insert_avl\<close> that follows the recursive call: \<^verbatim>\<open>update_height(node)\<close>, the
  balance factor, and the four rotation cases tested in the order of the source. The
  tests on \<^verbatim>\<open>node->left->key\<close> are evaluated only when \<^verbatim>\<open>balance > 1\<close> and those on
  \<^verbatim>\<open>node->right->key\<close> only when \<^verbatim>\<open>balance < -1\<close> (\<^verbatim>\<open>&&\<close> short-circuits), so the cases are
  grouped by the sign of the balance; reading the key of a null child is a fault.
\<close>

fun insert_rebalance :: "AVLNode \<Rightarrow> int \<Rightarrow> fault + AVLNode" where
  "insert_rebalance Null k = Inr Null"
| "insert_rebalance (Node nk nv nh l r) k =
     (let h = 1 + max (get_height l) (get_height r);
          balance = get_height l - get_height r
      in if 1 < balance then
           (case l of
              Null \<Rightarrow> Inl NullDereference
            | Node lk lv lh ll lr \<Rightarrow>
                if k < lk then rotate_right (Node nk nv h l r)
                else if lk < k then
                  (case rotate_left l of
                     Inl f \<Rightarrow> Inl f
                   | Inr l' \<Rightarrow> rotate_right (Node nk nv h l' r))
                else Inr (Node nk nv h l r))
         else if balance < - 1 then
           (case r of
              Null \<Rightarrow> Inl NullDereference
            | Node rk rv rh rl rr \<Rightarrow>
                if rk < k then rotate_left (Node nk nv h l r)
                else if k < rk then
                  (case rotate_right r of
                     Inl f \<Rightarrow> Inl f
                   | Inr r' \<Rightarrow> rotate_left (Node nk nv h l r'))
                else Inr (Node nk nv h l r))
         else Inr (Node nk nv h l r))"

text \<open>
  \<^verbatim>\<open>insert_avl\<close> returns the new root together with the flag it stores through
  \<^verbatim>\<open>inserted\<close>.
\<close>

fun insert_avl :: "AVLNode \<Rightarrow> int \<Rightarrow> int \<Rightarrow> fault + (AVLNode \<times> bool)" where
  "insert_avl Null k v = Inr (Node k v 1 Null Null, True)"
| "insert_avl (Node nk nv nh l r) k v =
     (if k < nk then
        (case insert_avl l k v of
           Inl f \<Rightarrow> Inl f
         | Inr (l', inserted) \<Rightarrow>
             (case insert_rebalance (Node nk nv nh l' r) k of
                Inl f \<Rightarrow> Inl f
              | Inr node \<Rightarrow> Inr (node, inserted)))
      else if nk < k then
        (case insert_avl r k v of
           Inl f \<Rightarrow> Inl f
         | Inr (r', inserted) \<Rightarrow>
             (case insert_rebalance (Node nk nv nh l r') k of
                Inl f \<Rightarrow> Inl f
              | Inr node \<Rightarrow> Inr (node, inserted)))
      else Inr (Node nk v nh l r, False))"

fun find_min :: "AVLNode \<Rightarrow> fault + AVLNode" where
  "find_min Null = Inl NullDereference"
| "find_min (Node k v h l r) = (if l \<noteq> Null then find_min l else Inr (Node k v h l r))"

text \<open>
  The part of \<^verbatim>\<open>remove_avl\<close> from \<^verbatim>\<open>if (!node) return node;\<close> on: the height update and
  the four rotation cases, which test the balance factors of the children.
\<close>

fun remove_rebalance :: "AVLNode \<Rightarrow> fault + AVLNode" where
  "remove_rebalance Null = Inr Null"
| "remove_rebalance (Node nk nv nh l r) =
     (let h = 1 + max (get_height l) (get_height r);
          balance = get_height l - get_height r
      in if 1 < balance \<and> 0 \<le> get_balance l then rotate_right (Node nk nv h l r)
         else if 1 < balance \<and> get_balance l < 0 then
           (case rotate_left l of
              Inl f \<Rightarrow> Inl f
            | Inr l' \<Rightarrow> rotate_right (Node nk nv h l' r))
         else if balance < - 1 \<and> get_balance r \<le> 0 then rotate_left (Node nk nv h l r)
         else if balance < - 1 \<and> 0 < get_balance r then
           (case rotate_right r of
              Inl f \<Rightarrow> Inl f
            | Inr r' \<Rightarrow> rotate_left (Node nk nv h l r'))
         else Inr (Node nk nv h l r))"

text \<open>
  \<^verbatim>\<open>remove_avl\<close> returns the new root together with the flag it stores through \<^verbatim>\<open>removed\<close>.
  With at most one child, \<^verbatim>\<open>*node = *temp\<close> makes the node a copy of its child (key, value,
  height and both links), which is the child itself; with two children the node takes key
  and value of the leftmost node of the right subtree, which is then removed there.
\<close>

fun remove_avl :: "AVLNode \<Rightarrow> int \<Rightarrow> fault + (AVLNode \<times> bool)" where
  "remove_avl Null k = Inr (Null, False)"
| "remove_avl (Node nk nv nh l r) k =
     (if k < nk then
        (case remove_avl l k of
           Inl f \<Rightarrow> Inl f
         | Inr (l', removed) \<Rightarrow>
             (case remove_rebalance (Node nk nv nh l' r) of
                Inl f \<Rightarrow> Inl f
              | Inr node \<Rightarrow> Inr (node, removed)))
      else if nk < k then
        (case remove_avl r k of
           Inl f \<Rightarrow> Inl f
         | Inr (r', removed) \<Rightarrow>
             (case remove_rebalance (Node nk nv nh l r') of
                Inl f \<Rightarrow> Inl f
              | Inr node \<Rightarrow> Inr (node, removed)))
      else if l = Null \<or> r = Null then
        (case remove_rebalance (if l \<noteq> Null then l else r) of
           Inl f \<Rightarrow> Inl f
         | Inr node \<Rightarrow> Inr (node, True))
      else
        (case find_min r of
           Inl f \<Rightarrow> Inl f
         | Inr Null \<Rightarrow> Inl NullDereference
         | Inr (Node tk tv th tleft tright) \<Rightarrow>
             (case remove_avl r tk of
                Inl f \<Rightarrow> Inl f
              | Inr (r', dummy) \<Rightarrow>
                  (case remove_rebalance (Node tk tv nh l r') of
                     Inl f \<Rightarrow> Inl f
                   | Inr node \<Rightarrow> Inr (node, True)))))"

fun find_avl :: "AVLNode \<Rightarrow> int \<Rightarrow> int option" where
  "find_avl Null k = None"
| "find_avl (Node nk nv nh l r) k =
     (if k = nk then Some nv else if k < nk then find_avl l k else find_avl r k)"

text \<open>The constructor \<^verbatim>\<open>AVLHashTable(initial_size)\<close>.\<close>

definition avlht_new :: "nat \<Rightarrow> AVLNode HashTable" where
  "avlht_new initial_size =
     \<lparr>table = replicate initial_size Null, table_size = initial_size, current_size = 0\<rparr>"

text \<open>
  \<^verbatim>\<open>insert\<close>, \<^verbatim>\<open>resize\<close> and \<^verbatim>\<open>collect_and_reinsert\<close> call each other; as for open addressing
  the first argument bounds the depth of nested \<^verbatim>\<open>insert\<close> calls. \<open>avlht_resize_loop\<close> is
  the range-\<^verbatim>\<open>for\<close> of \<^verbatim>\<open>resize\<close> over the old roots; \<^verbatim>\<open>clear_avl\<close> only frees the old nodes.
  The test \<^verbatim>\<open>static_cast<double>(current_size) / table_size > 1.0\<close> is written
  \<open>table_size < current_size\<close>.
\<close>

fun avlht_insert :: "nat \<Rightarrow> hashfn \<Rightarrow> AVLNode HashTable \<Rightarrow> int \<Rightarrow> int \<Rightarrow> (bool \<times> AVLNode HashTable) comp"
  and avlht_resize :: "nat \<Rightarrow> hashfn \<Rightarrow> AVLNode HashTable \<Rightarrow> AVLNode HashTable comp"
  and avlht_resize_loop :: "nat \<Rightarrow> hashfn \<Rightarrow> AVLNode list \<Rightarrow> AVLNode HashTable \<Rightarrow> AVLNode HashTable comp"
  and collect_and_reinsert :: "nat \<Rightarrow> hashfn \<Rightarrow> AVLNode \<Rightarrow> AVLNode HashTable \<Rightarrow> AVLNode HashTable comp"
  where
  "avlht_insert 0 hf t k v = None"
| "avlht_insert (Suc depth) hf t k v =
     (case (if table_size t < current_size t then avlht_resize depth hf t else Some (Inr t)) of
        None \<Rightarrow> None
      | Some (Inl f) \<Rightarrow> Some (Inl f)
      | Some (Inr t1) \<Rightarrow>
          (case hf k (table_size t1) of
             Inl f \<Rightarrow> Some (Inl f)
           | Inr index \<Rightarrow>
               (case slot_at (table t1) index of
                  Inl f \<Rightarrow> Some (Inl f)
                | Inr root \<Rightarrow>
                    (case insert_avl root k v of
                       Inl f \<Rightarrow> Some (Inl f)
                     | Inr (root', inserted) \<Rightarrow>
                         Some (Inr (True,
                           t1\<lparr>table := (table t1)[index := root'],
                              current_size :=
                                (if inserted then current_size t1 + 1 else current_size t1)\<rparr>))))))"
| "avlht_resize depth hf t =
     avlht_resize_loop depth hf (table t)
       (t\<lparr>table_size := 2 * table_size t,
          table := replicate (2 * table_size t) Null,
          current_size := 0\<rparr>)"
| "avlht_resize_loop depth hf [] t = Some (Inr t)"
| "avlht_resize_loop depth hf (root # old_table) t =
     (if root \<noteq> Null then
        (case collect_and_reinsert depth hf root t of
           None \<Rightarrow> None
         | Some (Inl f) \<Rightarrow> Some (Inl f)
         | Some (Inr t1) \<Rightarrow> avlht_resize_loop depth hf old_table t1)
      else avlht_resize_loop depth hf old_table t)"
| "collect_and_reinsert depth hf Null t = Some (Inr t)"
| "collect_and_reinsert depth hf (Node k v h l r) t =
     (case avlht_insert depth hf t k v of
        None \<Rightarrow> None
      | Some (Inl f) \<Rightarrow> Some (Inl f)
      | Some (Inr (_, t1)) \<Rightarrow>
          (case collect_and_reinsert depth hf l t1 of
             None \<Rightarrow> None
           | Some (Inl f) \<Rightarrow> Some (Inl f)
           | Some (Inr t2) \<Rightarrow> collect_and_reinsert depth hf r t2))"

definition avlht_remove :: "hashfn \<Rightarrow> AVLNode HashTable \<Rightarrow> int \<Rightarrow> fault + (bool \<times> AVLNode HashTable)" where
  "avlht_remove hf t k =
     (case hf k (table_size t) of
        Inl f \<Rightarrow> Inl f
      | Inr index \<Rightarrow>
          (case slot_at (table t) index of
             Inl f \<Rightarrow> Inl f
           | Inr root \<Rightarrow>
               (case remove_avl root k of
                  Inl f \<Rightarrow> Inl f
                | Inr (root', removed) \<Rightarrow>
                    Inr (removed,
                      t\<lparr>table := (table t)[index := root'],
                        current_size :=
                          (if removed then decrement (current_size t) else current_size t)\<rparr>))))"

definition avlht_find :: "hashfn \<Rightarrow> AVLNode HashTable \<Rightarrow> int \<Rightarrow> fault + int option" where
  "avlht_find hf t k =
     (case hf k (table_size t) of
        Inl f \<Rightarrow> Inl f
      | Inr index \<Rightarrow>
          (case slot_at (table t) index of
             Inl f \<Rightarrow> Inl f
           | Inr root \<Rightarrow> Inr (find_avl root k)))"

definition avlht_clear :: "AVLNode HashTable \<Rightarrow> AVLNode HashTable" where
  "avlht_clear t = t\<lparr>table := map (\<lambda>root. Null) (table t), current_size := 0\<rparr>"

definition avlht_size :: "AVLNode HashTable \<Rightarrow> nat" where
  "avlht_size t = current_size t"

section \<open>Specification vocabulary for the open-addressing table\<close>

text \<open>The condition of the \<^verbatim>\<open>while\<close> loop of \<^verbatim>\<open>probe\<close>: the slot is passed over.\<close>

definition skip :: "int \<Rightarrow> Entry \<Rightarrow> bool" where
  "skip k e \<longleftrightarrow> state e \<noteq> EMPTY \<and> (state e = DELETED \<or> key e \<noteq> k)"

text \<open>A slot holds the live key \<open>k\<close>.\<close>

definition live :: "int \<Rightarrow> Entry \<Rightarrow> bool" where
  "live k e \<longleftrightarrow> state e = OCCUPIED \<and> key e = k"

text \<open>The key is present: some slot of the table holds it live.\<close>

definition oa_present :: "Entry HashTable \<Rightarrow> int \<Rightarrow> bool" where
  "oa_present t k \<longleftrightarrow> (\<exists>e\<in>set (table t). live k e)"

text \<open>The mapping a table stands for: the value in the first slot that holds the key live.\<close>

definition oa_map :: "Entry HashTable \<Rightarrow> int \<Rightarrow> int option" where
  "oa_map t k = map_option val (List.find (live k) (table t))"

text \<open>
  Every live key is reached by its probe sequence before an \<open>EMPTY\<close> slot: \<open>m\<close> steps of
  \<open>+1\<close> modulo the capacity lead from the hash of the key to its slot, and none of the
  \<open>m\<close> slots passed on the way is \<open>EMPTY\<close>.
\<close>

definition probe_reaches :: "hashfn \<Rightarrow> Entry HashTable \<Rightarrow> bool" where
  "probe_reaches hf t \<longleftrightarrow>
     (\<forall>i<length (table t). state (table t ! i) = OCCUPIED \<longrightarrow>
        (\<exists>h m. hf (key (table t ! i)) (table_size t) = Inr h \<and> m < table_size t \<and>
               (h + m) mod table_size t = i \<and>
               (\<forall>m'<m. state (table t ! ((h + m') mod table_size t)) \<noteq> EMPTY)))"

text \<open>No two slots hold the same live key.\<close>

definition distinct_live :: "Entry list \<Rightarrow> bool" where
  "distinct_live tbl \<longleftrightarrow>
     (\<forall>i<length tbl. \<forall>j<length tbl.
        state (tbl ! i) = OCCUPIED \<and> state (tbl ! j) = OCCUPIED \<and> key (tbl ! i) = key (tbl ! j)
        \<longrightarrow> i = j)"

definition occupied :: "Entry \<Rightarrow> bool" where
  "occupied e \<longleftrightarrow> state e = OCCUPIED"

text \<open>The invariant of the open-addressing table.\<close>

definition oa_inv :: "hashfn \<Rightarrow> Entry HashTable \<Rightarrow> bool" where
  "oa_inv hf t \<longleftrightarrow>
     length (table t) = table_size t \<and> 0 < table_size t \<and>
     current_size t = length (filter occupied (table t)) \<and>
     probe_reaches hf t \<and> distinct_live (table t)"

text \<open>A caller's requests, and the driver that issues them one after the other.\<close>

datatype request = Insert int int | Remove int | Find int | Clear

datatype reply = Flag bool | Found "int option" | Finished

fun oa_call :: "nat \<Rightarrow> hashfn \<Rightarrow> request \<Rightarrow> Entry HashTable \<Rightarrow> (reply \<times> Entry HashTable) comp" where
  "oa_call depth hf (Insert k v) t =
     (case oa_insert depth hf t k v of
        None \<Rightarrow> None | Some (Inl f) \<Rightarrow> Some (Inl f) | Some (Inr (b, t1)) \<Rightarrow> Some (Inr (Flag b, t1)))"
| "oa_call depth hf (Remove k) t =
     (case oa_remove hf t k of
        None \<Rightarrow> None | Some (Inl f) \<Rightarrow> Some (Inl f) | Some (Inr (b, t1)) \<Rightarrow> Some (Inr (Flag b, t1)))"
| "oa_call depth hf (Find k) t =
     (case oa_find hf t k of
        None \<Rightarrow> None | Some (Inl f) \<Rightarrow> Some (Inl f) | Some (Inr r) \<Rightarrow> Some (Inr (Found r, t)))"
| "oa_call depth hf Clear t = Some (Inr (Finished, oa_clear t))"

fun oa_run :: "nat \<Rightarrow> hashfn \<Rightarrow> request list \<Rightarrow> Entry HashTable \<Rightarrow> (reply list \<times> Entry HashTable) comp" where
  "oa_run depth hf [] t = Some (Inr ([], t))"
| "oa_run depth hf (rq # rqs) t =
     (case oa_call depth hf rq t of
        None \<Rightarrow> None
      | Some (Inl f) \<Rightarrow> Some (Inl f)
      | Some (Inr (r, t1)) \<Rightarrow>
          (case oa_run depth hf rqs t1 of
             None \<Rightarrow> None
           | Some (Inl f) \<Rightarrow> Some (Inl f)
           | Some (Inr (rs, t2)) \<Rightarrow> Some (Inr (r # rs, t2))))"


text \<open>The live entries of a list of slots as a mapping, for the old table during growth.\<close>

definition entries_map :: "Entry list \<Rightarrow> int \<Rightarrow> int option" where
  "entries_map es k = map_option val (List.find (live k) es)"

section \<open>Specification vocabulary for the AVL table\<close>

text \<open>The in-order traversal of a tree, as key-value pairs, and the set of its keys.\<close>

fun inorder :: "AVLNode \<Rightarrow> (int \<times> int) list" where
  "inorder Null = []"
| "inorder (Node k v h l r) = inorder l @ (k, v) # inorder r"

definition keys :: "AVLNode \<Rightarrow> int set" where
  "keys t = fst ` set (inorder t)"

text \<open>A binary search tree: the in-order traversal has strictly increasing keys.\<close>

definition bst :: "AVLNode \<Rightarrow> bool" where
  "bst t \<longleftrightarrow> sorted_wrt (<) (map fst (inorder t))"

text \<open>
  The height of a tree as the longest path (0 for an absent subtree), and the AVL balance
  invariant in the words of the specification: at every node the heights of the two
  subtrees differ by at most one, and the stored height field is one more than the larger
  of them.
\<close>

fun height :: "AVLNode \<Rightarrow> int" where
  "height Null = 0"
| "height (Node k v h l r) = 1 + max (height l) (height r)"

fun balanced :: "AVLNode \<Rightarrow> bool" where
  "balanced Null = True"
| "balanced (Node k v h l r) \<longleftrightarrow>
     \<bar>height l - height r\<bar> \<le> 1 \<and> h = 1 + max (height l) (height r) \<and>
     balanced l \<and> balanced r"

text \<open>
  The same invariant read off the stored height fields, as the code reads them, and the
  shape left by an insertion that made a tree higher: the subtree on the side of the
  inserted key is the higher one.
\<close>

fun avl :: "AVLNode \<Rightarrow> bool" where
  "avl Null = True"
| "avl (Node k v h l r) \<longleftrightarrow>
     avl l \<and> avl r \<and> \<bar>get_height l - get_height r\<bar> \<le> 1 \<and>
     h = 1 + max (get_height l) (get_height r)"

fun grew :: "AVLNode \<Rightarrow> int \<Rightarrow> bool" where
  "grew Null k = False"
| "grew (Node nk nv nh l r) k =
     (if k < nk then get_height l = get_height r + 1
      else if nk < k then get_height r = get_height l + 1
      else l = Null \<and> r = Null)"

text \<open>The mapping an AVL table stands for: the bucket of the key is searched.\<close>

definition avlht_map :: "hashfn \<Rightarrow> AVLNode HashTable \<Rightarrow> int \<Rightarrow> int option" where
  "avlht_map hf t k =
     (case hf k (table_size t) of
        Inl f \<Rightarrow> None
      | Inr i \<Rightarrow> if i < length (table t) then find_avl (table t ! i) k else None)"

text \<open>The key is present: some bucket holds a node with it.\<close>

definition avlht_present :: "AVLNode HashTable \<Rightarrow> int \<Rightarrow> bool" where
  "avlht_present t k \<longleftrightarrow> (\<exists>root\<in>set (table t). k \<in> fst ` set (inorder root))"

definition nodes :: "AVLNode \<Rightarrow> nat" where
  "nodes root = length (inorder root)"

text \<open>
  The invariant of the AVL table: every bucket is a balanced search tree whose keys hash
  to the bucket, \<open>current_size\<close> counts the nodes, and it exceeds the capacity by at most
  one (\<^verbatim>\<open>insert\<close> grows the table before the next insertion).
\<close>

definition avlht_inv :: "hashfn \<Rightarrow> AVLNode HashTable \<Rightarrow> bool" where
  "avlht_inv hf t \<longleftrightarrow>
     length (table t) = table_size t \<and> 0 < table_size t \<and>
     current_size t = sum_list (map nodes (table t)) \<and>
     current_size t \<le> table_size t + 1 \<and>
     (\<forall>i<length (table t). avl (table t ! i) \<and> bst (table t ! i) \<and>
        (\<forall>k\<in>keys (table t ! i). hf k (table_size t) = Inr i))"

text \<open>
  The order in which \<^verbatim>\<open>collect_and_reinsert\<close> visits a tree, and the insertion of a list
  of pairs one after the other, which is what the growth loop does with the old nodes.
\<close>

fun preorder :: "AVLNode \<Rightarrow> (int \<times> int) list" where
  "preorder Null = []"
| "preorder (Node k v h l r) = (k, v) # preorder l @ preorder r"

fun avlht_insert_all :: "nat \<Rightarrow> hashfn \<Rightarrow> (int \<times> int) list \<Rightarrow> AVLNode HashTable \<Rightarrow> AVLNode HashTable comp" where
  "avlht_insert_all depth hf [] t = Some (Inr t)"
| "avlht_insert_all depth hf ((k, v) # kvs) t =
     (case avlht_insert depth hf t k v of
        None \<Rightarrow> None
      | Some (Inl f) \<Rightarrow> Some (Inl f)
      | Some (Inr (_, t1)) \<Rightarrow> avlht_insert_all depth hf kvs t1)"

text \<open>The driver for the AVL table.\<close>

fun avlht_call :: "nat \<Rightarrow> hashfn \<Rightarrow> request \<Rightarrow> AVLNode HashTable \<Rightarrow> (reply \<times> AVLNode HashTable) comp" where
  "avlht_call depth hf (Insert k v) t =
     (case avlht_insert depth hf t k v of
        None \<Rightarrow> None | Some (Inl f) \<Rightarrow> Some (Inl f) | Some (Inr (b, t1)) \<Rightarrow> Some (Inr (Flag b, t1)))"
| "avlht_call depth hf (Remove k) t =
     (case avlht_remove hf t k of Inl f \<Rightarrow> Some (Inl f) | Inr (b, t1) \<Rightarrow> Some (Inr (Flag b, t1)))"
| "avlht_call depth hf (Find k) t =
     (case avlht_find hf t k of Inl f \<Rightarrow> Some (Inl f) | Inr r \<Rightarrow> Some (Inr (Found r, t)))"
| "avlht_call depth hf Clear t = Some (Inr (Finished, avlht_clear t))"

fun avlht_run :: "nat \<Rightarrow> hashfn \<Rightarrow> request list \<Rightarrow> AVLNode HashTable \<Rightarrow> (reply list \<times> AVLNode HashTable) comp" where
  "avlht_run depth hf [] t = Some (Inr ([], t))"
| "avlht_run depth hf (rq # rqs) t =
     (case avlht_call depth hf rq t of
        None \<Rightarrow> None
      | Some (Inl f) \<Rightarrow> Some (Inl f)
      | Some (Inr (r, t1)) \<Rightarrow>
          (case avlht_run depth hf rqs t1 of
             None \<Rightarrow> None
           | Some (Inl f) \<Rightarrow> Some (Inl f)
           | Some (Inr (rs, t2)) \<Rightarrow> Some (Inr (r # rs, t2))))"

text \<open>
  The value most recently inserted for \<open>k\<close> by a sequence of requests, \<open>v\<close> when the
  sequence inserts none.
\<close>

fun latest :: "int \<Rightarrow> int \<Rightarrow> request list \<Rightarrow> int" where
  "latest k v [] = v"
| "latest k v (Insert k' v' # rqs) = latest k (if k' = k then v' else v) rqs"
| "latest k v (rq # rqs) = latest k v rqs"

section \<open>Auxiliary lemmas\<close>

subsection \<open>Cyclic index arithmetic\<close>

lemma cyc_inj:
  assumes "h < n" "j < n" "j' < n" "(h + j) mod n = (h + j') mod n"
  shows "j = (j'::nat)"
proof -
  have m: "\<And>x. x < n \<Longrightarrow> (h + x) mod n = (if h + x < n then h + x else h + x - n)"
    using assms(1) by (simp add: mod_if)
  show ?thesis using assms m[of j] m[of j'] by (auto split: if_splits)
qed

lemma back_at_start: "h < n \<Longrightarrow> j < n \<Longrightarrow> ((h + Suc j) mod n = h) = (Suc j = n)"
proof
  assume a: "h < n" "j < n" "(h + Suc j) mod n = h"
  show "Suc j = n"
  proof (rule ccontr)
    assume "Suc j \<noteq> n"
    with a have lt: "Suc j < n" by simp
    have "(h + Suc j) mod n = (h + 0) mod n" using a by simp
    from cyc_inj[OF a(1) lt _ this] a show False by simp
  qed
next
  assume "h < n" "j < n" "Suc j = n"
  then show "(h + Suc j) mod n = h" by simp
qed

lemma cyc_surj:
  assumes "h < n" "i < n"
  shows "\<exists>m<n. (h + m) mod n = (i::nat)"
proof (cases "h \<le> i")
  case True
  then show ?thesis using assms by (intro exI[of _ "i - h"]) simp
next
  case False
  then have "h + (i + n - h) = i + n" using assms by simp
  then have "(h + (i + n - h)) mod n = i" using assms by simp
  moreover have "i + n - h < n" using False assms by simp
  ultimately show ?thesis by blast
qed

subsection \<open>The probe loop\<close>

lemma probe_loop_unfold:
  "i < length tbl \<Longrightarrow> 0 < n \<Longrightarrow> probe_loop tbl n k h i =
     (if skip k (tbl ! i) then
        (if Suc i mod n = h then Some (Inr h) else probe_loop tbl n k h (Suc i mod n))
      else Some (Inr i))"
  by (subst probe_loop.simps) (simp add: slot_at_def skip_def)

lemma probe_loop_stop:
  assumes "length tbl = n" "h < n" "m < n" "j \<le> m"
    and "\<forall>i. j \<le> i \<and> i < m \<longrightarrow> skip k (tbl ! ((h + i) mod n))"
    and "\<not> skip k (tbl ! ((h + m) mod n))"
  shows "probe_loop tbl n k h ((h + j) mod n) = Some (Inr ((h + m) mod n))"
  using assms(4,5)
proof (induction "m - j" arbitrary: j)
  case 0
  then have "j = m" by simp
  then show ?case using assms(1,2,3,6)
    by (subst probe_loop_unfold) simp_all
next
  case (Suc d)
  then have jm: "j < m" by simp
  then have sk: "skip k (tbl ! ((h + j) mod n))" using Suc.prems by simp
  have n0: "0 < n" using assms(2) by simp
  have jn: "j < n" using jm assms(3) by simp
  have ne: "(h + Suc j) mod n \<noteq> h" using back_at_start[OF assms(2) jn] jm assms(3) by simp
  have IH: "probe_loop tbl n k h ((h + Suc j) mod n) = Some (Inr ((h + m) mod n))"
    using Suc.hyps(1)[of "Suc j"] Suc.hyps(2) Suc.prems jm by simp
  show ?case
    using sk n0 ne IH assms(1)
    by (subst probe_loop_unfold) (simp_all add: mod_Suc_eq)
qed

lemma probe_loop_wrap:
  assumes "length tbl = n" "h < n" "j < n"
    and "\<forall>i. j \<le> i \<and> i < n \<longrightarrow> skip k (tbl ! ((h + i) mod n))"
  shows "probe_loop tbl n k h ((h + j) mod n) = Some (Inr h)"
  using assms(3,4)
proof (induction "n - j" arbitrary: j)
  case 0
  then show ?case by simp
next
  case (Suc d)
  have sk: "skip k (tbl ! ((h + j) mod n))" using Suc.prems by simp
  have n0: "0 < n" using assms(2) by simp
  show ?case
  proof (cases "Suc j = n")
    case True
    then have "(h + Suc j) mod n = h" using assms(2) by simp
    then show ?thesis using sk n0 assms(1)
      by (subst probe_loop_unfold) (simp_all add: mod_Suc_eq)
  next
    case False
    then have lt: "Suc j < n" using Suc.prems by simp
    have ne: "(h + Suc j) mod n \<noteq> h" using back_at_start[OF assms(2) Suc.prems(1)] False by simp
    have IH: "probe_loop tbl n k h ((h + Suc j) mod n) = Some (Inr h)"
      using Suc.hyps(1)[of "Suc j"] Suc.hyps(2) Suc.prems lt by simp
    show ?thesis using sk n0 ne IH assms(1)
      by (subst probe_loop_unfold) (simp_all add: mod_Suc_eq)
  qed
qed

lemma not_skip_iff: "\<not> skip k e \<longleftrightarrow> state e = EMPTY \<or> live k e"
  by (cases "state e") (auto simp: skip_def live_def)

text \<open>What \<open>probe\<close> returns on a table that satisfies the invariant.\<close>

lemma probe_result:
  assumes hc: "hash_contract hf" and inv: "oa_inv hf t"
  shows "\<exists>h p. hf k (table_size t) = Inr h \<and> h < table_size t \<and>
           probe hf t k = Some (Inr p) \<and> p < table_size t \<and>
           (live k (table t ! p) \<or>
            ((\<forall>i<table_size t. \<not> live k (table t ! i)) \<and>
             (\<exists>m<table_size t. (h + m) mod table_size t = p \<and>
                (\<forall>m'<m. state (table t ! ((h + m') mod table_size t)) \<noteq> EMPTY)) \<and>
             (state (table t ! p) = EMPTY \<or>
              (p = h \<and> (\<forall>i<table_size t. state (table t ! i) \<noteq> EMPTY)))))"
proof -
  define n where "n = table_size t"
  define tbl where "tbl = table t"
  have len: "length tbl = n" and n0: "0 < n" and dl: "distinct_live tbl"
    using inv by (auto simp: oa_inv_def n_def tbl_def)
  have pr: "\<And>i. i < n \<Longrightarrow> state (tbl ! i) = OCCUPIED \<Longrightarrow>
     \<exists>h m. hf (key (tbl ! i)) n = Inr h \<and> m < n \<and> (h + m) mod n = i \<and>
            (\<forall>m'<m. state (tbl ! ((h + m') mod n)) \<noteq> EMPTY)"
    using inv unfolding oa_inv_def probe_reaches_def n_def tbl_def by simp
  obtain h where h: "hf k n = Inr h" "h < n"
    using hc n0 unfolding hash_contract_def by blast
  have pe: "probe hf t k = probe_loop tbl n k h ((h + 0) mod n)"
    using h by (simp add: probe_def n_def tbl_def)
  have goal: "\<exists>p. probe hf t k = Some (Inr p) \<and> p < n \<and>
           (live k (tbl ! p) \<or>
            ((\<forall>i<n. \<not> live k (tbl ! i)) \<and>
             (\<exists>m<n. (h + m) mod n = p \<and> (\<forall>m'<m. state (tbl ! ((h + m') mod n)) \<noteq> EMPTY)) \<and>
             (state (tbl ! p) = EMPTY \<or> (p = h \<and> (\<forall>i<n. state (tbl ! i) \<noteq> EMPTY)))))"
  proof (cases "\<exists>i<n. live k (tbl ! i)")
    case True
    then obtain i where i: "i < n" "live k (tbl ! i)" by blast
    then have occ: "state (tbl ! i) = OCCUPIED" and ki: "key (tbl ! i) = k"
      by (simp_all add: live_def)
    from pr[OF i(1) occ] ki h(1) obtain m where
      m: "m < n" "(h + m) mod n = i" "\<forall>m'<m. state (tbl ! ((h + m') mod n)) \<noteq> EMPTY"
      by auto
    have sk: "\<forall>m'. 0 \<le> m' \<and> m' < m \<longrightarrow> skip k (tbl ! ((h + m') mod n))"
    proof (intro allI impI)
      fix m' assume "0 \<le> m' \<and> m' < m"
      then have m': "m' < m" by simp
      have ne: "(h + m') mod n \<noteq> i"
        using cyc_inj[OF h(2) _ m(1), of m'] m' m(1,2) by auto
      have lt: "(h + m') mod n < n" using n0 by simp
      have "\<not> live k (tbl ! ((h + m') mod n))"
        using dl i lt ne len occ ki unfolding distinct_live_def live_def by blast
      moreover have "state (tbl ! ((h + m') mod n)) \<noteq> EMPTY" using m(3) m' by simp
      ultimately show "skip k (tbl ! ((h + m') mod n))" using not_skip_iff by blast
    qed
    have st: "\<not> skip k (tbl ! ((h + m) mod n))" using i(2) m(2) not_skip_iff by simp
    have "probe hf t k = Some (Inr i)"
      using probe_loop_stop[OF len h(2) m(1) _ sk st] pe m(2) by simp
    then show ?thesis using i by blast
  next
    case False
    then have nolive: "\<forall>i<n. \<not> live k (tbl ! i)" by blast
    show ?thesis
    proof (cases "\<exists>m<n. \<not> skip k (tbl ! ((h + m) mod n))")
      case True
      define P where "P = (\<lambda>m. m < n \<and> \<not> skip k (tbl ! ((h + m) mod n)))"
      have exP: "\<exists>m. P m" using True unfolding P_def by blast
      define m where "m = (LEAST m. P m)"
      have Pm: "P m" unfolding m_def using exP by (rule LeastI_ex)
      have mP: "m < n" "\<not> skip k (tbl ! ((h + m) mod n))" using Pm unfolding P_def by simp_all
      have mL: "\<forall>m'. 0 \<le> m' \<and> m' < m \<longrightarrow> skip k (tbl ! ((h + m') mod n))"
      proof (intro allI impI)
        fix m' assume "0 \<le> m' \<and> m' < m"
        then have a: "m' < m" by simp
        then have "\<not> P m'" unfolding m_def by (rule not_less_Least)
        moreover have "m' < n" using a mP(1) by simp
        ultimately show "skip k (tbl ! ((h + m') mod n))" unfolding P_def by simp
      qed
      define p where "p = (h + m) mod n"
      have pn: "p < n" using n0 by (simp add: p_def)
      have "probe_loop tbl n k h ((h + 0) mod n) = Some (Inr ((h + m) mod n))"
        by (rule probe_loop_stop[OF len h(2) mP(1) _ mL mP(2)]) simp
      then have 1: "probe hf t k = Some (Inr p)" using pe by (simp add: p_def)
      have "\<not> live k (tbl ! p)" using nolive pn by simp
      then have 2: "state (tbl ! p) = EMPTY"
        using mP(2) not_skip_iff[of k "tbl ! p"] by (simp add: p_def)
      have 3: "\<forall>m'<m. state (tbl ! ((h + m') mod n)) \<noteq> EMPTY"
        using mL by (simp add: skip_def)
      have "\<exists>m<n. (h + m) mod n = p \<and> (\<forall>m'<m. state (tbl ! ((h + m') mod n)) \<noteq> EMPTY)"
        using mP(1) 3 p_def by blast
      then show ?thesis using 1 2 pn nolive by blast
    next
      case False
      then have all: "\<forall>i. 0 \<le> i \<and> i < n \<longrightarrow> skip k (tbl ! ((h + i) mod n))" by blast
      have "probe hf t k = Some (Inr h)"
        using probe_loop_wrap[OF len h(2) n0 all] pe by simp
      moreover have "\<forall>i<n. state (tbl ! i) \<noteq> EMPTY"
      proof (intro allI impI)
        fix i assume "i < n"
        from cyc_surj[OF h(2) this] obtain m where "m < n" "(h + m) mod n = i" by blast
        then show "state (tbl ! i) \<noteq> EMPTY" using all by (auto simp: skip_def)
      qed
      moreover have "\<exists>m<n. (h + m) mod n = h \<and> (\<forall>m'<m. state (tbl ! ((h + m') mod n)) \<noteq> EMPTY)"
        using n0 h(2) by (intro exI[of _ 0]) simp
      ultimately show ?thesis using h(2) nolive by blast
    qed
  qed
  show ?thesis using goal h unfolding n_def tbl_def by blast
qed

subsection \<open>The mapping of a table\<close>

lemma oa_map_live:
  assumes "distinct_live (table t)" "p < length (table t)" "live k (table t ! p)"
  shows "oa_map t k = Some (val (table t ! p))"
proof -
  have "\<forall>j<p. \<not> live k (table t ! j)"
  proof (intro allI impI notI)
    fix j assume j: "j < p" and l: "live k (table t ! j)"
    have "j < length (table t)" using j assms(2) by simp
    then have "j = p"
      using assms l unfolding distinct_live_def live_def by blast
    then show False using j by simp
  qed
  then have "List.find (live k) (table t) = Some (table t ! p)"
    using assms(2,3) unfolding find_Some_iff by blast
  then show ?thesis by (simp add: oa_map_def)
qed

lemma oa_map_none:
  assumes "\<forall>i<length (table t). \<not> live k (table t ! i)"
  shows "oa_map t k = None"
  using assms by (auto simp: oa_map_def find_None_iff in_set_conv_nth)

lemma oa_map_iff:
  assumes "distinct_live (table t)"
  shows "(oa_map t k = Some v) = (\<exists>p<length (table t). live k (table t ! p) \<and> val (table t ! p) = v)"
proof (cases "\<exists>p<length (table t). live k (table t ! p)")
  case True
  then obtain p where p: "p < length (table t)" "live k (table t ! p)" by blast
  have u: "\<And>q. q < length (table t) \<Longrightarrow> live k (table t ! q) \<Longrightarrow> q = p"
    using assms p unfolding distinct_live_def live_def by blast
  show ?thesis
  proof
    assume "oa_map t k = Some v"
    then have "val (table t ! p) = v" using oa_map_live[OF assms p] by simp
    then show "\<exists>p<length (table t). live k (table t ! p) \<and> val (table t ! p) = v"
      using p by blast
  next
    assume "\<exists>p<length (table t). live k (table t ! p) \<and> val (table t ! p) = v"
    then obtain q where q: "q < length (table t)" "live k (table t ! q)" "val (table t ! q) = v"
      by blast
    have "q = p" using u[OF q(1,2)] .
    then show "oa_map t k = Some v" using oa_map_live[OF assms p] q(3) by simp
  qed
next
  case False
  then show ?thesis using oa_map_none[of t k] by auto
qed

lemma oa_map_None_iff:
  "(oa_map t k = None) = (\<forall>i<length (table t). \<not> live k (table t ! i))"
  by (auto simp: oa_map_def find_None_iff in_set_conv_nth)

lemma oa_present_iff: "oa_present t k \<longleftrightarrow> oa_map t k \<noteq> None"
  by (auto simp: oa_present_def oa_map_def find_None_iff)

lemma option_eqI: "(\<And>v. (a = Some v) = (b = Some v)) \<Longrightarrow> a = b"
  by (cases a; cases b) auto

lemma count_update:
  "p < length xs \<Longrightarrow>
   length (filter P (xs[p := y])) + (if P (xs ! p) then 1 else 0) =
   length (filter P xs) + (if P y then 1 else 0)"
proof (induction xs arbitrary: p)
  case Nil
  then show ?case by simp
next
  case (Cons x xs)
  show ?case
  proof (cases p)
    case 0
    then show ?thesis by simp
  next
    case (Suc q)
    then have "q < length xs" using Cons.prems by simp
    from Cons.IH[OF this] show ?thesis using Suc by simp
  qed
qed

lemma count_pos: "p < length xs \<Longrightarrow> P (xs ! p) \<Longrightarrow> 0 < length (filter P xs)"
proof -
  assume a: "p < length xs" "P (xs ! p)"
  then have "xs ! p \<in> set (filter P xs)" by simp
  then have "filter P xs \<noteq> []" by force
  then show ?thesis by simp
qed

subsection \<open>The invariant under the three slot updates\<close>

lemma probe_reaches_cs [simp]:
  "probe_reaches hf (t\<lparr>current_size := c\<rparr>) = probe_reaches hf t"
  by (simp add: probe_reaches_def)

lemma distinct_live_update:
  assumes dl: "distinct_live tbl" and p: "p < length tbl"
    and e: "state e = OCCUPIED \<longrightarrow> state (tbl ! p) = OCCUPIED \<and> key e = key (tbl ! p)"
  shows "distinct_live (tbl[p := e])"
proof -
  have same: "\<And>i. i < length tbl \<Longrightarrow> state (tbl[p := e] ! i) = OCCUPIED \<Longrightarrow>
      state (tbl ! i) = OCCUPIED \<and> key (tbl[p := e] ! i) = key (tbl ! i)"
  proof -
    fix i assume "i < length tbl" "state (tbl[p := e] ! i) = OCCUPIED"
    then show "state (tbl ! i) = OCCUPIED \<and> key (tbl[p := e] ! i) = key (tbl ! i)"
      using e p by (cases "i = p") auto
  qed
  show ?thesis
    unfolding distinct_live_def
  proof (intro allI impI)
    fix i j
    assume i: "i < length (tbl[p := e])" and j: "j < length (tbl[p := e])"
      and h: "state (tbl[p := e] ! i) = OCCUPIED \<and> state (tbl[p := e] ! j) = OCCUPIED \<and>
              key (tbl[p := e] ! i) = key (tbl[p := e] ! j)"
    have "state (tbl ! i) = OCCUPIED \<and> state (tbl ! j) = OCCUPIED \<and> key (tbl ! i) = key (tbl ! j)"
      using same[of i] same[of j] i j h by simp
    then show "i = j" using dl i j unfolding distinct_live_def by simp
  qed
qed

lemma reaches_update:
  assumes pr: "probe_reaches hf t" and len: "length (table t) = table_size t"
    and p: "p < table_size t"
    and ne: "state e = EMPTY \<longrightarrow> state (table t ! p) = EMPTY"
    and oc: "state e = OCCUPIED \<longrightarrow>
        (state (table t ! p) = OCCUPIED \<and> key e = key (table t ! p)) \<or>
        (\<exists>h m. hf (key e) (table_size t) = Inr h \<and> m < table_size t \<and>
               (h + m) mod table_size t = p \<and>
               (\<forall>m'<m. state (table t ! ((h + m') mod table_size t)) \<noteq> EMPTY))"
  shows "probe_reaches hf (t\<lparr>table := (table t)[p := e]\<rparr>)"
proof -
  define n where "n = table_size t"
  define tbl where "tbl = table t"
  define tbl' where "tbl' = tbl[p := e]"
  have n0: "0 < n" using p by (simp add: n_def)
  have keep: "\<And>i. i < n \<Longrightarrow> state (tbl ! i) \<noteq> EMPTY \<Longrightarrow> state (tbl' ! i) \<noteq> EMPTY"
  proof -
    fix i assume "i < n" "state (tbl ! i) \<noteq> EMPTY"
    then show "state (tbl' ! i) \<noteq> EMPTY"
      using ne len p by (cases "i = p") (auto simp: tbl'_def tbl_def n_def)
  qed
  have old: "\<And>i. i < n \<Longrightarrow> state (tbl ! i) = OCCUPIED \<Longrightarrow>
      \<exists>h m. hf (key (tbl ! i)) n = Inr h \<and> m < n \<and> (h + m) mod n = i \<and>
            (\<forall>m'<m. state (tbl ! ((h + m') mod n)) \<noteq> EMPTY)"
    using pr len unfolding probe_reaches_def n_def tbl_def by simp
  have new: "\<And>i. i < n \<Longrightarrow> state (tbl' ! i) = OCCUPIED \<Longrightarrow>
      \<exists>h m. hf (key (tbl' ! i)) n = Inr h \<and> m < n \<and> (h + m) mod n = i \<and>
            (\<forall>m'<m. state (tbl' ! ((h + m') mod n)) \<noteq> EMPTY)"
  proof -
    fix i assume i: "i < n" "state (tbl' ! i) = OCCUPIED"
    have "\<exists>h m. hf (key (tbl' ! i)) n = Inr h \<and> m < n \<and> (h + m) mod n = i \<and>
            (\<forall>m'<m. state (tbl ! ((h + m') mod n)) \<noteq> EMPTY)"
    proof (cases "i = p")
      case True
      then have e: "tbl' ! i = e" using p len by (simp add: tbl'_def tbl_def n_def)
      then have "state e = OCCUPIED" using i by simp
      with oc consider
        (a) "state (tbl ! p) = OCCUPIED" "key e = key (tbl ! p)" |
        (b) "\<exists>h m. hf (key e) n = Inr h \<and> m < n \<and> (h + m) mod n = p \<and>
               (\<forall>m'<m. state (tbl ! ((h + m') mod n)) \<noteq> EMPTY)"
        unfolding n_def tbl_def by blast
      then show ?thesis
      proof cases
        case a
        then show ?thesis using old[of p] p e True by (simp add: n_def)
      next
        case b
        then show ?thesis using e True by simp
      qed
    next
      case False
      then have "tbl' ! i = tbl ! i" by (simp add: tbl'_def)
      then show ?thesis using old[of i] i by simp
    qed
    then obtain h m where hm: "hf (key (tbl' ! i)) n = Inr h" "m < n" "(h + m) mod n = i"
      "\<forall>m'<m. state (tbl ! ((h + m') mod n)) \<noteq> EMPTY" by blast
    have "\<forall>m'<m. state (tbl' ! ((h + m') mod n)) \<noteq> EMPTY"
      using hm(4) keep n0 by simp
    then show "\<exists>h m. hf (key (tbl' ! i)) n = Inr h \<and> m < n \<and> (h + m) mod n = i \<and>
            (\<forall>m'<m. state (tbl' ! ((h + m') mod n)) \<noteq> EMPTY)"
      using hm by blast
  qed
  show ?thesis
    unfolding probe_reaches_def using new len
    by (simp add: n_def tbl'_def tbl_def)
qed

lemma inv_set_val:
  assumes inv: "oa_inv hf t" and p: "p < table_size t"
  shows "oa_inv hf (t\<lparr>table := (table t)[p := (table t ! p)\<lparr>val := v\<rparr>]\<rparr>)"
proof -
  have len: "length (table t) = table_size t" using inv by (simp add: oa_inv_def)
  have pr: "probe_reaches hf (t\<lparr>table := (table t)[p := (table t ! p)\<lparr>val := v\<rparr>]\<rparr>)"
    by (rule reaches_update) (use inv p in \<open>simp_all add: oa_inv_def\<close>)
  have dl: "distinct_live ((table t)[p := (table t ! p)\<lparr>val := v\<rparr>])"
    by (rule distinct_live_update) (use inv p len in \<open>simp_all add: oa_inv_def\<close>)
  have cnt: "length (filter occupied ((table t)[p := (table t ! p)\<lparr>val := v\<rparr>])) =
      length (filter occupied (table t))"
    using count_update[of p "table t" occupied "(table t ! p)\<lparr>val := v\<rparr>"] p len
    by (simp add: occupied_def split: if_splits)
  show ?thesis using inv pr dl cnt by (simp add: oa_inv_def)
qed

lemma inv_set_deleted:
  assumes inv: "oa_inv hf t" and p: "p < table_size t"
    and occ: "state (table t ! p) = OCCUPIED"
  shows "oa_inv hf (t\<lparr>table := (table t)[p := (table t ! p)\<lparr>state := DELETED\<rparr>],
            current_size := decrement (current_size t)\<rparr>)"
    and "decrement (current_size t) = current_size t - 1" and "0 < current_size t"
proof -
  have len: "length (table t) = table_size t" using inv by (simp add: oa_inv_def)
  have pos: "0 < length (filter occupied (table t))"
    using count_pos[of p "table t" occupied] p len occ by (simp add: occupied_def)
  then show cs: "0 < current_size t" using inv by (simp add: oa_inv_def)
  then show dec: "decrement (current_size t) = current_size t - 1" by (simp add: decrement_def)
  have pr: "probe_reaches hf (t\<lparr>table := (table t)[p := (table t ! p)\<lparr>state := DELETED\<rparr>]\<rparr>)"
    by (rule reaches_update) (use inv p in \<open>simp_all add: oa_inv_def\<close>)
  have dl: "distinct_live ((table t)[p := (table t ! p)\<lparr>state := DELETED\<rparr>])"
    by (rule distinct_live_update) (use inv p len in \<open>simp_all add: oa_inv_def\<close>)
  have cnt: "length (filter occupied ((table t)[p := (table t ! p)\<lparr>state := DELETED\<rparr>])) =
      length (filter occupied (table t)) - 1"
    using count_update[of p "table t" occupied "(table t ! p)\<lparr>state := DELETED\<rparr>"] p len occ
    by (simp add: occupied_def)
  show "oa_inv hf (t\<lparr>table := (table t)[p := (table t ! p)\<lparr>state := DELETED\<rparr>],
            current_size := decrement (current_size t)\<rparr>)"
    using inv pr dl cnt dec by (simp add: oa_inv_def)
qed

lemma inv_set_new:
  assumes inv: "oa_inv hf t" and p: "p < table_size t"
    and free: "state (table t ! p) \<noteq> OCCUPIED"
    and absent: "\<forall>i<table_size t. \<not> live k (table t ! i)"
    and path: "\<exists>h m. hf k (table_size t) = Inr h \<and> m < table_size t \<and>
               (h + m) mod table_size t = p \<and>
               (\<forall>m'<m. state (table t ! ((h + m') mod table_size t)) \<noteq> EMPTY)"
  shows "oa_inv hf (t\<lparr>table := (table t)[p := \<lparr>key = k, val = v, state = OCCUPIED\<rparr>],
            current_size := current_size t + 1\<rparr>)"
proof -
  have len: "length (table t) = table_size t" using inv by (simp add: oa_inv_def)
  have pr: "probe_reaches hf (t\<lparr>table := (table t)[p := \<lparr>key = k, val = v, state = OCCUPIED\<rparr>]\<rparr>)"
    by (rule reaches_update) (use inv p path in \<open>simp_all add: oa_inv_def\<close>)
  have dl: "distinct_live ((table t)[p := \<lparr>key = k, val = v, state = OCCUPIED\<rparr>])"
    unfolding distinct_live_def
  proof (intro allI impI)
    fix i j
    assume i: "i < length ((table t)[p := \<lparr>key = k, val = v, state = OCCUPIED\<rparr>])"
      and j: "j < length ((table t)[p := \<lparr>key = k, val = v, state = OCCUPIED\<rparr>])"
      and h: "state ((table t)[p := \<lparr>key = k, val = v, state = OCCUPIED\<rparr>] ! i) = OCCUPIED \<and>
              state ((table t)[p := \<lparr>key = k, val = v, state = OCCUPIED\<rparr>] ! j) = OCCUPIED \<and>
              key ((table t)[p := \<lparr>key = k, val = v, state = OCCUPIED\<rparr>] ! i) =
              key ((table t)[p := \<lparr>key = k, val = v, state = OCCUPIED\<rparr>] ! j)"
    have d: "\<And>a b. a < table_size t \<Longrightarrow> b < table_size t \<Longrightarrow> state (table t ! a) = OCCUPIED \<Longrightarrow>
        state (table t ! b) = OCCUPIED \<Longrightarrow> key (table t ! a) = key (table t ! b) \<Longrightarrow> a = b"
      using inv unfolding oa_inv_def distinct_live_def by simp
    show "i = j"
    proof (cases "i = p"; cases "j = p")
      assume "i = p" "j = p" then show ?thesis by simp
    next
      assume a: "i = p" "j \<noteq> p"
      then have "live k (table t ! j)" using h p len by (simp add: live_def)
      then show ?thesis using absent j len by simp
    next
      assume a: "i \<noteq> p" "j = p"
      then have "live k (table t ! i)" using h p len by (simp add: live_def)
      then show ?thesis using absent i len by simp
    next
      assume a: "i \<noteq> p" "j \<noteq> p"
      then show ?thesis using d[of i j] h i j len by simp
    qed
  qed
  have cnt: "length (filter occupied ((table t)[p := \<lparr>key = k, val = v, state = OCCUPIED\<rparr>])) =
      length (filter occupied (table t)) + 1"
    using count_update[of p "table t" occupied "\<lparr>key = k, val = v, state = OCCUPIED\<rparr>"] p len free
    by (simp add: occupied_def)
  show ?thesis using inv pr dl cnt by (simp add: oa_inv_def)
qed

lemma oa_map_cs [simp]: "oa_map (t\<lparr>current_size := c\<rparr>) = oa_map t"
  by (rule ext) (simp add: oa_map_def)

lemma oa_map_eqI:
  assumes len: "length (table t') = length (table t)"
    and same: "\<forall>i<length (table t). live k (table t' ! i) = live k (table t ! i) \<and>
        (live k (table t ! i) \<longrightarrow> val (table t' ! i) = val (table t ! i))"
  shows "oa_map t' k = oa_map t k"
proof (cases "List.find (live k) (table t)")
  case None
  then have "\<forall>i<length (table t). \<not> live k (table t ! i)"
    by (auto simp: find_None_iff in_set_conv_nth)
  then have "\<forall>i<length (table t'). \<not> live k (table t' ! i)" using same len by simp
  then have "oa_map t' k = None" by (rule oa_map_none)
  then show ?thesis using None by (simp add: oa_map_def)
next
  case (Some x)
  then obtain i where i: "i < length (table t)" "live k (table t ! i)" "x = table t ! i"
    "\<forall>j<i. \<not> live k (table t ! j)" unfolding find_Some_iff by blast
  have "i < length (table t') \<and> live k (table t' ! i) \<and> (\<forall>j<i. \<not> live k (table t' ! j))"
    using i same len by auto
  then have "List.find (live k) (table t') = Some (table t' ! i)"
    unfolding find_Some_iff by blast
  then show ?thesis using Some i same by (simp add: oa_map_def)
qed

lemma map_set_val:
  assumes dl: "distinct_live (table t)" and p: "p < length (table t)"
    and l: "live k (table t ! p)"
  shows "oa_map (t\<lparr>table := (table t)[p := (table t ! p)\<lparr>val := v\<rparr>]\<rparr>) = (oa_map t)(k \<mapsto> v)"
proof
  fix k'
  let ?t' = "t\<lparr>table := (table t)[p := (table t ! p)\<lparr>val := v\<rparr>]\<rparr>"
  show "oa_map ?t' k' = ((oa_map t)(k \<mapsto> v)) k'"
  proof (cases "k' = k")
    case True
    have "distinct_live (table ?t')"
      using distinct_live_update[OF dl p, of "(table t ! p)\<lparr>val := v\<rparr>"] by simp
    moreover have "p < length (table ?t')" using p by simp
    moreover have "live k (table ?t' ! p)" using l p by (simp add: live_def)
    ultimately have "oa_map ?t' k = Some (val (table ?t' ! p))" by (rule oa_map_live)
    then show ?thesis using True p by simp
  next
    case False
    have "oa_map ?t' k' = oa_map t k'"
    proof (rule oa_map_eqI)
      show "length (table ?t') = length (table t)" by simp
      show "\<forall>i<length (table t). live k' (table ?t' ! i) = live k' (table t ! i) \<and>
        (live k' (table t ! i) \<longrightarrow> val (table ?t' ! i) = val (table t ! i))"
      proof (intro allI impI)
        fix i assume "i < length (table t)"
        then show "live k' (table ?t' ! i) = live k' (table t ! i) \<and>
          (live k' (table t ! i) \<longrightarrow> val (table ?t' ! i) = val (table t ! i))"
          using False l p by (cases "i = p") (auto simp: live_def)
      qed
    qed
    then show ?thesis using False by simp
  qed
qed

lemma map_set_deleted:
  assumes dl: "distinct_live (table t)" and p: "p < length (table t)"
    and l: "live k (table t ! p)"
  shows "oa_map (t\<lparr>table := (table t)[p := (table t ! p)\<lparr>state := DELETED\<rparr>]\<rparr>) = (oa_map t)(k := None)"
proof
  fix k'
  let ?t' = "t\<lparr>table := (table t)[p := (table t ! p)\<lparr>state := DELETED\<rparr>]\<rparr>"
  show "oa_map ?t' k' = ((oa_map t)(k := None)) k'"
  proof (cases "k' = k")
    case True
    have "\<forall>i<length (table ?t'). \<not> live k (table ?t' ! i)"
    proof (intro allI impI)
      fix i assume i: "i < length (table ?t')"
      show "\<not> live k (table ?t' ! i)"
      proof (cases "i = p")
        case True
        then show ?thesis using p by (simp add: live_def)
      next
        case False
        then have "\<not> live k (table t ! i)"
          using dl i p l unfolding distinct_live_def live_def by auto
        then show ?thesis using False by simp
      qed
    qed
    then have "oa_map ?t' k = None" by (rule oa_map_none)
    then show ?thesis using True by simp
  next
    case False
    have "oa_map ?t' k' = oa_map t k'"
    proof (rule oa_map_eqI)
      show "length (table ?t') = length (table t)" by simp
      show "\<forall>i<length (table t). live k' (table ?t' ! i) = live k' (table t ! i) \<and>
        (live k' (table t ! i) \<longrightarrow> val (table ?t' ! i) = val (table t ! i))"
      proof (intro allI impI)
        fix i assume "i < length (table t)"
        then show "live k' (table ?t' ! i) = live k' (table t ! i) \<and>
          (live k' (table t ! i) \<longrightarrow> val (table ?t' ! i) = val (table t ! i))"
          using False l p by (cases "i = p") (auto simp: live_def)
      qed
    qed
    then show ?thesis using False by simp
  qed
qed

lemma map_set_new:
  assumes dl': "distinct_live ((table t)[p := \<lparr>key = k, val = v, state = OCCUPIED\<rparr>])"
    and p: "p < length (table t)"
    and free: "state (table t ! p) \<noteq> OCCUPIED"
  shows "oa_map (t\<lparr>table := (table t)[p := \<lparr>key = k, val = v, state = OCCUPIED\<rparr>]\<rparr>) = (oa_map t)(k \<mapsto> v)"
proof
  fix k'
  let ?t' = "t\<lparr>table := (table t)[p := \<lparr>key = k, val = v, state = OCCUPIED\<rparr>]\<rparr>"
  show "oa_map ?t' k' = ((oa_map t)(k \<mapsto> v)) k'"
  proof (cases "k' = k")
    case True
    have "distinct_live (table ?t')" using dl' by simp
    moreover have "p < length (table ?t')" using p by simp
    moreover have "live k (table ?t' ! p)" using p by (simp add: live_def)
    ultimately have "oa_map ?t' k = Some (val (table ?t' ! p))" by (rule oa_map_live)
    then show ?thesis using True p by simp
  next
    case False
    have "oa_map ?t' k' = oa_map t k'"
    proof (rule oa_map_eqI)
      show "length (table ?t') = length (table t)" by simp
      show "\<forall>i<length (table t). live k' (table ?t' ! i) = live k' (table t ! i) \<and>
        (live k' (table t ! i) \<longrightarrow> val (table ?t' ! i) = val (table t ! i))"
      proof (intro allI impI)
        fix i assume "i < length (table t)"
        then show "live k' (table ?t' ! i) = live k' (table t ! i) \<and>
          (live k' (table t ! i) \<longrightarrow> val (table ?t' ! i) = val (table t ! i))"
          using False free p by (cases "i = p") (auto simp: live_def)
      qed
    qed
    then show ?thesis using False by simp
  qed
qed

subsection \<open>find, remove and clear\<close>

lemma oa_find_map:
  assumes hc: "hash_contract hf" and inv: "oa_inv hf t"
  shows "oa_find hf t k = Some (Inr (oa_map t k))"
proof -
  have len: "length (table t) = table_size t" and dl: "distinct_live (table t)"
    using inv by (simp_all add: oa_inv_def)
  from probe_result[OF hc inv, of k] obtain h p where
    pr: "probe hf t k = Some (Inr p)" and p: "p < table_size t"
    and cases: "live k (table t ! p) \<or> (\<forall>i<table_size t. \<not> live k (table t ! i))"
    by blast
  have sl: "slot_at (table t) p = Inr (table t ! p)" using p len by (simp add: slot_at_def)
  show ?thesis
  proof (cases "live k (table t ! p)")
    case True
    then have "oa_map t k = Some (val (table t ! p))" using oa_map_live[OF dl _ True] p len by simp
    then show ?thesis using pr sl True by (simp add: oa_find_def live_def)
  next
    case False
    then have "\<forall>i<length (table t). \<not> live k (table t ! i)" using cases len by simp
    then have "oa_map t k = None" by (rule oa_map_none)
    then show ?thesis using pr sl False by (simp add: oa_find_def live_def)
  qed
qed

lemma oa_remove_effect:
  assumes hc: "hash_contract hf" and inv: "oa_inv hf t"
  shows "\<exists>b t'. oa_remove hf t k = Some (Inr (b, t')) \<and> oa_inv hf t' \<and>
           table_size t' = table_size t \<and> (b \<longleftrightarrow> oa_map t k \<noteq> None) \<and>
           oa_map t' = (oa_map t)(k := None) \<and>
           (b \<longrightarrow> 0 < current_size t \<and> current_size t' = current_size t - 1 \<and>
              (\<exists>p<length (table t). live k (table t ! p) \<and>
                 table t' = (table t)[p := (table t ! p)\<lparr>state := DELETED\<rparr>])) \<and>
           (\<not> b \<longrightarrow> t' = t)"
proof -
  have len: "length (table t) = table_size t" and dl: "distinct_live (table t)"
    using inv by (simp_all add: oa_inv_def)
  from probe_result[OF hc inv, of k] obtain h p where
    pr: "probe hf t k = Some (Inr p)" and p: "p < table_size t"
    and cases: "live k (table t ! p) \<or> (\<forall>i<table_size t. \<not> live k (table t ! i))"
    by blast
  have sl: "slot_at (table t) p = Inr (table t ! p)" using p len by (simp add: slot_at_def)
  show ?thesis
  proof (cases "live k (table t ! p)")
    case True
    let ?t' = "t\<lparr>table := (table t)[p := (table t ! p)\<lparr>state := DELETED\<rparr>],
                current_size := decrement (current_size t)\<rparr>"
    have occ: "state (table t ! p) = OCCUPIED" using True by (simp add: live_def)
    have r: "oa_remove hf t k = Some (Inr (True, ?t'))"
      using pr sl True by (simp add: oa_remove_def live_def)
    have m: "oa_map t k = Some (val (table t ! p))" using oa_map_live[OF dl _ True] p len by simp
    have m': "oa_map ?t' = (oa_map t)(k := None)"
      using map_set_deleted[OF dl _ True] p len by simp
    note i = inv_set_deleted[OF inv p occ]
    have e: "\<exists>q<length (table t). live k (table t ! q) \<and>
                 table ?t' = (table t)[q := (table t ! q)\<lparr>state := DELETED\<rparr>]"
      using True p len by (intro exI[of _ p]) simp
    have "oa_inv hf ?t' \<and> table_size ?t' = table_size t \<and> (True \<longleftrightarrow> oa_map t k \<noteq> None) \<and>
           oa_map ?t' = (oa_map t)(k := None) \<and>
           (True \<longrightarrow> 0 < current_size t \<and> current_size ?t' = current_size t - 1 \<and>
              (\<exists>p<length (table t). live k (table t ! p) \<and>
                 table ?t' = (table t)[p := (table t ! p)\<lparr>state := DELETED\<rparr>])) \<and>
           (\<not> True \<longrightarrow> ?t' = t)"
      using m m' i e by simp
    then show ?thesis using r by blast
  next
    case False
    then have "\<forall>i<length (table t). \<not> live k (table t ! i)" using cases len by simp
    then have m: "oa_map t k = None" by (rule oa_map_none)
    have r: "oa_remove hf t k = Some (Inr (False, t))"
      using pr sl False by (simp add: oa_remove_def live_def)
    have "(oa_map t)(k := None) = oa_map t" using m by (simp add: fun_upd_idem)
    then show ?thesis using r m inv by (intro exI[of _ False] exI[of _ t]) simp
  qed
qed

lemma oa_inv_new:
  assumes "0 < n"
  shows "oa_inv hf (oa_new n)" and "oa_map (oa_new n) = Map.empty"
    and "\<forall>e\<in>set (table (oa_new n)). state e = EMPTY"
proof -
  show "oa_inv hf (oa_new n)"
    using assms
    by (simp add: oa_inv_def oa_new_def probe_reaches_def distinct_live_def occupied_def)
  show "oa_map (oa_new n) = Map.empty"
    by (rule ext) (simp add: oa_map_None_iff oa_new_def live_def)
  show "\<forall>e\<in>set (table (oa_new n)). state e = EMPTY" by (simp add: oa_new_def)
qed

lemma oa_inv_clear:
  assumes "oa_inv hf t"
  shows "oa_inv hf (oa_clear t)" and "oa_map (oa_clear t) = Map.empty"
    and "table_size (oa_clear t) = table_size t" and "current_size (oa_clear t) = 0"
proof -
  have f: "filter occupied (map (\<lambda>entry. entry\<lparr>state := EMPTY\<rparr>) (table t)) = []"
    by (simp add: filter_empty_conv occupied_def)
  show "oa_inv hf (oa_clear t)"
    using assms f
    by (simp add: oa_inv_def oa_clear_def probe_reaches_def distinct_live_def)
  show "oa_map (oa_clear t) = Map.empty"
    by (rule ext) (simp add: oa_map_None_iff oa_clear_def live_def)
  show "table_size (oa_clear t) = table_size t" by (simp add: oa_clear_def)
  show "current_size (oa_clear t) = 0" by (simp add: oa_clear_def)
qed

subsection \<open>insert without growth\<close>

lemma in_set_updateD: "e \<in> set (xs[p := y]) \<Longrightarrow> e = y \<or> e \<in> set xs"
  using set_update_subset_insert[of xs p y] by auto

lemma oa_insert_stable:
  assumes hc: "hash_contract hf" and inv: "oa_inv hf t"
    and nr: "\<not> table_size t < 2 * current_size t"
  shows "\<exists>b t'. oa_insert (Suc d) hf t k v = Some (Inr (b, t')) \<and> oa_inv hf t' \<and>
           table_size t' = table_size t \<and>
           (b \<longrightarrow> oa_map t' = (oa_map t)(k \<mapsto> v) \<and>
              current_size t' = (if oa_map t k = None then current_size t + 1 else current_size t)) \<and>
           (\<not> b \<longrightarrow> t' = t) \<and>
           (\<not> b \<longleftrightarrow> oa_map t k = None \<and> (\<forall>e\<in>set (table t). state e \<noteq> EMPTY) \<and>
              (\<exists>h. hf k (table_size t) = Inr h \<and> state (table t ! h) = OCCUPIED)) \<and>
           ((\<forall>e\<in>set (table t). state e \<noteq> DELETED) \<longrightarrow> (\<forall>e\<in>set (table t'). state e \<noteq> DELETED))"
proof -
  have len: "length (table t) = table_size t" and dl: "distinct_live (table t)"
    using inv by (simp_all add: oa_inv_def)
  from probe_result[OF hc inv, of k] obtain h p where
    h: "hf k (table_size t) = Inr h" and pr: "probe hf t k = Some (Inr p)"
    and p: "p < table_size t"
    and cases: "live k (table t ! p) \<or>
            ((\<forall>i<table_size t. \<not> live k (table t ! i)) \<and>
             (\<exists>m<table_size t. (h + m) mod table_size t = p \<and>
                (\<forall>m'<m. state (table t ! ((h + m') mod table_size t)) \<noteq> EMPTY)) \<and>
             (state (table t ! p) = EMPTY \<or>
              (p = h \<and> (\<forall>i<table_size t. state (table t ! i) \<noteq> EMPTY))))"
    by blast
  have sl: "slot_at (table t) p = Inr (table t ! p)" using p len by (simp add: slot_at_def)
  have pin: "table t ! p \<in> set (table t)" using p len by simp
  show ?thesis
  proof (cases "live k (table t ! p)")
    case True
    let ?t' = "t\<lparr>table := (table t)[p := (table t ! p)\<lparr>val := v\<rparr>]\<rparr>"
    have r: "oa_insert (Suc d) hf t k v = Some (Inr (True, ?t'))"
      using pr sl True nr by (simp add: live_def)
    have m: "oa_map t k \<noteq> None" using oa_map_live[OF dl _ True] p len by simp
    have m': "oa_map ?t' = (oa_map t)(k \<mapsto> v)"
      using map_set_val[OF dl _ True] p len by simp
    have i: "oa_inv hf ?t'" by (rule inv_set_val[OF inv p])
    have del: "(\<forall>e\<in>set (table t). state e \<noteq> DELETED) \<longrightarrow> (\<forall>e\<in>set (table ?t'). state e \<noteq> DELETED)"
      using pin by (auto dest!: in_set_updateD)
    have "oa_inv hf ?t' \<and> table_size ?t' = table_size t \<and>
           (True \<longrightarrow> oa_map ?t' = (oa_map t)(k \<mapsto> v) \<and>
              current_size ?t' = (if oa_map t k = None then current_size t + 1 else current_size t)) \<and>
           (\<not> True \<longrightarrow> ?t' = t) \<and>
           (\<not> True \<longleftrightarrow> oa_map t k = None \<and> (\<forall>e\<in>set (table t). state e \<noteq> EMPTY) \<and>
              (\<exists>h. hf k (table_size t) = Inr h \<and> state (table t ! h) = OCCUPIED)) \<and>
           ((\<forall>e\<in>set (table t). state e \<noteq> DELETED) \<longrightarrow> (\<forall>e\<in>set (table ?t'). state e \<noteq> DELETED))"
      using m m' i del by simp
    then show ?thesis using r by blast
  next
    case False
    with cases have absent: "\<forall>i<table_size t. \<not> live k (table t ! i)"
      and path: "\<exists>m<table_size t. (h + m) mod table_size t = p \<and>
                (\<forall>m'<m. state (table t ! ((h + m') mod table_size t)) \<noteq> EMPTY)"
      and ew: "state (table t ! p) = EMPTY \<or>
              (p = h \<and> (\<forall>i<table_size t. state (table t ! i) \<noteq> EMPTY))"
      by blast+
    have m: "oa_map t k = None" using oa_map_none[of t k] absent len by simp
    show ?thesis
    proof (cases "state (table t ! p) = OCCUPIED")
      case occ: True
      have r: "oa_insert (Suc d) hf t k v = Some (Inr (False, t))"
        using pr sl False occ nr by (simp add: live_def)
      have ph: "p = h" and noe: "\<forall>i<table_size t. state (table t ! i) \<noteq> EMPTY"
        using ew occ by auto
      have "\<forall>e\<in>set (table t). state e \<noteq> EMPTY"
        using noe len by (auto simp: in_set_conv_nth)
      then show ?thesis using r m inv occ ph h by (intro exI[of _ False] exI[of _ t]) auto
    next
      case free: False
      let ?t' = "t\<lparr>table := (table t)[p := \<lparr>key = k, val = v, state = OCCUPIED\<rparr>],
                   current_size := current_size t + 1\<rparr>"
      have r: "oa_insert (Suc d) hf t k v = Some (Inr (True, ?t'))"
        using pr sl False free nr by (simp add: live_def)
      have i: "oa_inv hf ?t'"
        by (rule inv_set_new[OF inv p free absent]) (use h path in blast)
      then have "distinct_live ((table t)[p := \<lparr>key = k, val = v, state = OCCUPIED\<rparr>])"
        by (simp add: oa_inv_def)
      then have m': "oa_map ?t' = (oa_map t)(k \<mapsto> v)"
        using map_set_new[of t p k v] p len free by simp
      have del: "(\<forall>e\<in>set (table t). state e \<noteq> DELETED) \<longrightarrow> (\<forall>e\<in>set (table ?t'). state e \<noteq> DELETED)"
        by (auto dest!: in_set_updateD)
      have nf: "\<not> ((\<forall>e\<in>set (table t). state e \<noteq> EMPTY) \<and>
              (\<exists>h. hf k (table_size t) = Inr h \<and> state (table t ! h) = OCCUPIED))"
        using ew free h pin by auto
      have "oa_inv hf ?t' \<and> table_size ?t' = table_size t \<and>
           (True \<longrightarrow> oa_map ?t' = (oa_map t)(k \<mapsto> v) \<and>
              current_size ?t' = (if oa_map t k = None then current_size t + 1 else current_size t)) \<and>
           (\<not> True \<longrightarrow> ?t' = t) \<and>
           (\<not> True \<longleftrightarrow> oa_map t k = None \<and> (\<forall>e\<in>set (table t). state e \<noteq> EMPTY) \<and>
              (\<exists>h. hf k (table_size t) = Inr h \<and> state (table t ! h) = OCCUPIED)) \<and>
           ((\<forall>e\<in>set (table t). state e \<noteq> DELETED) \<longrightarrow> (\<forall>e\<in>set (table ?t'). state e \<noteq> DELETED))"
        using m m' i del nf by simp
      then show ?thesis using r by blast
    qed
  qed
qed

subsection \<open>Growth\<close>

lemma distinct_live_tail: "distinct_live (x # xs) \<Longrightarrow> distinct_live xs"
  unfolding distinct_live_def
proof (intro allI impI)
  fix i j
  assume a: "\<forall>i<length (x # xs). \<forall>j<length (x # xs).
      state ((x # xs) ! i) = OCCUPIED \<and> state ((x # xs) ! j) = OCCUPIED \<and>
      key ((x # xs) ! i) = key ((x # xs) ! j) \<longrightarrow> i = j"
    and i: "i < length xs" and j: "j < length xs"
    and h: "state (xs ! i) = OCCUPIED \<and> state (xs ! j) = OCCUPIED \<and> key (xs ! i) = key (xs ! j)"
  have "Suc i = Suc j" using a[rule_format, of "Suc i" "Suc j"] i j h by simp
  then show "i = j" by simp
qed

lemma distinct_live_head:
  assumes "distinct_live (x # xs)" "occupied x" "y \<in> set xs" "occupied y"
  shows "key y \<noteq> key x"
proof
  assume e: "key y = key x"
  from assms(3) obtain j where j: "j < length xs" "xs ! j = y" by (auto simp: in_set_conv_nth)
  have "Suc j = 0"
    using assms(1)[unfolded distinct_live_def, rule_format, of "Suc j" 0] j e assms(2,4)
    by (simp add: occupied_def)
  then show False by simp
qed

lemma some_not_P: "length (filter P xs) < length xs \<Longrightarrow> \<exists>x\<in>set xs. \<not> P x"
proof (rule ccontr)
  assume a: "length (filter P xs) < length xs" and "\<not> (\<exists>x\<in>set xs. \<not> P x)"
  then have "filter P xs = xs" by (simp add: filter_id_conv)
  then show False using a by simp
qed

lemma oa_resize_loop_effect:
  assumes hc: "hash_contract hf"
  shows "oa_inv hf t \<Longrightarrow> (\<forall>e\<in>set (table t). state e \<noteq> DELETED) \<Longrightarrow>
     2 * (current_size t + length (filter occupied es)) \<le> table_size t \<Longrightarrow>
     distinct_live es \<Longrightarrow> (\<forall>e\<in>set es. occupied e \<longrightarrow> oa_map t (key e) = None) \<Longrightarrow>
     \<exists>t'. oa_resize_loop (Suc d) hf es t = Some (Inr t') \<and> oa_inv hf t' \<and>
          table_size t' = table_size t \<and> (\<forall>e\<in>set (table t'). state e \<noteq> DELETED) \<and>
          current_size t' = current_size t + length (filter occupied es) \<and>
          (\<forall>k. oa_map t' k = (case entries_map es k of Some v \<Rightarrow> Some v | None \<Rightarrow> oa_map t k))"
proof (induction es arbitrary: t)
  case Nil
  then show ?case by (simp add: entries_map_def)
next
  case (Cons e es)
  have dl: "distinct_live es" using Cons.prems(4) by (rule distinct_live_tail)
  show ?case
  proof (cases "occupied e")
    case False
    have bound: "2 * (current_size t + length (filter occupied es)) \<le> table_size t"
      using Cons.prems(3) False by simp
    from Cons.IH[OF Cons.prems(1,2) bound dl] Cons.prems(5) obtain t' where
      t': "oa_resize_loop (Suc d) hf es t = Some (Inr t')" "oa_inv hf t'"
        "table_size t' = table_size t" "\<forall>e\<in>set (table t'). state e \<noteq> DELETED"
        "current_size t' = current_size t + length (filter occupied es)"
        "\<forall>k. oa_map t' k = (case entries_map es k of Some v \<Rightarrow> Some v | None \<Rightarrow> oa_map t k)"
      by auto
    have em: "\<And>k. entries_map (e # es) k = entries_map es k"
      using False by (simp add: entries_map_def live_def occupied_def)
    have ne: "state e \<noteq> OCCUPIED" using False by (simp add: occupied_def)
    have r: "oa_resize_loop (Suc d) hf (e # es) t = Some (Inr t')" using t'(1) ne by simp
    show ?thesis using r t'(2-6) False em by simp
  next
    case True
    have nr: "\<not> table_size t < 2 * current_size t" using Cons.prems(3) by simp
    have absent: "oa_map t (key e) = None" using Cons.prems(5) True by simp
    have lt: "length (filter occupied (table t)) < length (table t)"
      using Cons.prems(1,3) True by (simp add: oa_inv_def)
    from some_not_P[OF lt] obtain x where x: "x \<in> set (table t)" "\<not> occupied x" by blast
    then have "state x = EMPTY" using Cons.prems(2) by (cases "state x") (auto simp: occupied_def)
    then have hasE: "\<not> (\<forall>e\<in>set (table t). state e \<noteq> EMPTY)" using x by blast
    from oa_insert_stable[OF hc Cons.prems(1) nr, of d "key e" "val e"] hasE Cons.prems(2) absent
    obtain b t1 where
      t1: "oa_insert (Suc d) hf t (key e) (val e) = Some (Inr (b, t1))" "oa_inv hf t1"
        "table_size t1 = table_size t" "b"
        "oa_map t1 = (oa_map t)(key e \<mapsto> val e)" "current_size t1 = current_size t + 1"
        "\<forall>e\<in>set (table t1). state e \<noteq> DELETED"
      by auto
    have bound: "2 * (current_size t1 + length (filter occupied es)) \<le> table_size t1"
      using Cons.prems(3) True t1 by simp
    have ab1: "\<forall>e'\<in>set es. occupied e' \<longrightarrow> oa_map t1 (key e') = None"
      using distinct_live_head[OF Cons.prems(4) True] Cons.prems(5) t1(5) by auto
    from Cons.IH[OF t1(2) t1(7) bound dl ab1] obtain t' where
      t': "oa_resize_loop (Suc d) hf es t1 = Some (Inr t')" "oa_inv hf t'"
        "table_size t' = table_size t1" "\<forall>e\<in>set (table t'). state e \<noteq> DELETED"
        "current_size t' = current_size t1 + length (filter occupied es)"
        "\<forall>k. oa_map t' k = (case entries_map es k of Some v \<Rightarrow> Some v | None \<Rightarrow> oa_map t1 k)"
      by auto
    have r: "oa_resize_loop (Suc d) hf (e # es) t = Some (Inr t')"
      using True t1(1) t'(1) by (simp add: occupied_def)
    have nokey: "entries_map es (key e) = None"
    proof -
      have "\<forall>y\<in>set es. \<not> live (key e) y"
        using distinct_live_head[OF Cons.prems(4) True] by (auto simp: live_def occupied_def)
      then show ?thesis by (simp add: entries_map_def find_None_iff)
    qed
    have mp: "\<forall>k. oa_map t' k = (case entries_map (e # es) k of Some v \<Rightarrow> Some v | None \<Rightarrow> oa_map t k)"
    proof
      fix k
      show "oa_map t' k = (case entries_map (e # es) k of Some v \<Rightarrow> Some v | None \<Rightarrow> oa_map t k)"
      proof (cases "k = key e")
        case k: True
        have "entries_map (e # es) k = Some (val e)"
          using True k by (simp add: entries_map_def live_def occupied_def)
        moreover have "oa_map t1 k = Some (val e)" using t1(5) k by simp
        ultimately show ?thesis using t'(6) nokey k by simp
      next
        case k: False
        have "entries_map (e # es) k = entries_map es k"
          using k by (simp add: entries_map_def live_def)
        moreover have "oa_map t1 k = oa_map t k" using t1(5) k by simp
        ultimately show ?thesis using t'(6) by (simp split: option.splits)
      qed
    qed
    show ?thesis using r t' t1 mp True by simp
  qed
qed

lemma length_filter_le_length: "length (filter P xs) \<le> length xs"
  by simp

lemma oa_resize_effect:
  assumes hc: "hash_contract hf" and inv: "oa_inv hf t"
  shows "\<exists>t'. oa_resize (Suc d) hf t = Some (Inr t') \<and> oa_inv hf t' \<and>
           table_size t' = 2 * table_size t \<and> current_size t' = current_size t \<and>
           oa_map t' = oa_map t \<and> (\<forall>e\<in>set (table t'). state e \<noteq> DELETED) \<and>
           2 * current_size t' \<le> table_size t'"
proof -
  let ?f = "t\<lparr>table_size := 2 * table_size t,
          table := replicate (2 * table_size t) \<lparr>key = 0, val = 0, state = EMPTY\<rparr>,
          current_size := 0\<rparr>"
  have len: "length (table t) = table_size t" and n0: "0 < table_size t"
    and cs: "current_size t = length (filter occupied (table t))"
    and dl: "distinct_live (table t)"
    using inv by (simp_all add: oa_inv_def)
  have fi: "oa_inv hf ?f"
    using n0 by (simp add: oa_inv_def probe_reaches_def distinct_live_def occupied_def)
  have fm: "\<And>k. oa_map ?f k = None" by (simp add: oa_map_None_iff live_def)
  have fd: "\<forall>e\<in>set (table ?f). state e \<noteq> DELETED" by simp
  have fb: "2 * (current_size ?f + length (filter occupied (table t))) \<le> table_size ?f"
    using len length_filter_le_length[of occupied "table t"] by simp
  have fa: "\<forall>e\<in>set (table t). occupied e \<longrightarrow> oa_map ?f (key e) = None" using fm by blast
  from oa_resize_loop_effect[OF hc fi fd fb dl fa, of d] obtain t' where
    t': "oa_resize_loop (Suc d) hf (table t) ?f = Some (Inr t')" "oa_inv hf t'"
        "table_size t' = table_size ?f" "\<forall>e\<in>set (table t'). state e \<noteq> DELETED"
        "current_size t' = current_size ?f + length (filter occupied (table t))"
        "\<forall>k. oa_map t' k = (case entries_map (table t) k of Some v \<Rightarrow> Some v | None \<Rightarrow> oa_map ?f k)"
    by blast
  have "oa_map t' = oa_map t"
  proof
    fix k
    show "oa_map t' k = oa_map t k"
      using t'(6) fm[of k] by (simp add: entries_map_def oa_map_def split: option.splits)
  qed
  moreover have "oa_resize (Suc d) hf t = Some (Inr t')" using t'(1) by simp
  moreover have "2 * current_size t' \<le> table_size t'"
    using t'(3,5) cs len length_filter_le_length[of occupied "table t"] by simp
  ultimately show ?thesis using t' cs by simp
qed

subsection \<open>insert in general, and sequences of requests\<close>

lemma has_empty:
  assumes inv: "oa_inv hf t" and b: "2 * current_size t \<le> table_size t"
    and nd: "\<forall>e\<in>set (table t). state e \<noteq> DELETED"
  shows "\<exists>e\<in>set (table t). state e = EMPTY"
proof -
  have "length (filter occupied (table t)) < length (table t)"
    using inv b by (simp add: oa_inv_def)
  from some_not_P[OF this] obtain x where x: "x \<in> set (table t)" "\<not> occupied x" by blast
  then have "state x = EMPTY" using nd by (cases "state x") (auto simp: occupied_def)
  then show ?thesis using x by blast
qed

lemma oa_insert_grow:
  assumes "table_size t < 2 * current_size t" "oa_resize (Suc d) hf t = Some (Inr t1)"
    "\<not> table_size t1 < 2 * current_size t1"
  shows "oa_insert (Suc (Suc d)) hf t k v = oa_insert (Suc d) hf t1 k v"
  using assms by (simp del: oa_resize.simps)

lemma oa_insert_effect:
  assumes hc: "hash_contract hf" and inv: "oa_inv hf t"
  shows "\<exists>b t'. oa_insert (Suc (Suc d)) hf t k v = Some (Inr (b, t')) \<and> oa_inv hf t' \<and>
           table_size t' =
             (if table_size t < 2 * current_size t then 2 * table_size t else table_size t) \<and>
           (b \<longrightarrow> oa_map t' = (oa_map t)(k \<mapsto> v) \<and>
              current_size t' = (if oa_map t k = None then current_size t + 1 else current_size t)) \<and>
           (\<not> b \<longrightarrow> t' = t) \<and>
           (\<not> b \<longleftrightarrow> \<not> table_size t < 2 * current_size t \<and> oa_map t k = None \<and>
              (\<forall>e\<in>set (table t). state e \<noteq> EMPTY) \<and>
              (\<exists>h. hf k (table_size t) = Inr h \<and> state (table t ! h) = OCCUPIED)) \<and>
           ((\<forall>e\<in>set (table t). state e \<noteq> DELETED) \<longrightarrow> (\<forall>e\<in>set (table t'). state e \<noteq> DELETED))"
proof (cases "table_size t < 2 * current_size t")
  case False
  from oa_insert_stable[OF hc inv False, of "Suc d" k v] False show ?thesis by simp
next
  case True
  from oa_resize_effect[OF hc inv, of d] obtain t1 where
    t1: "oa_resize (Suc d) hf t = Some (Inr t1)" "oa_inv hf t1"
      "table_size t1 = 2 * table_size t" "current_size t1 = current_size t"
      "oa_map t1 = oa_map t" "\<forall>e\<in>set (table t1). state e \<noteq> DELETED"
      "2 * current_size t1 \<le> table_size t1"
    by blast
  have st: "\<not> table_size t1 < 2 * current_size t1" using t1(7) by simp
  have eq: "oa_insert (Suc (Suc d)) hf t k v = oa_insert (Suc d) hf t1 k v"
    by (rule oa_insert_grow[OF True t1(1) st])
  have he: "\<not> (\<forall>e\<in>set (table t1). state e \<noteq> EMPTY)"
    using has_empty[OF t1(2) t1(7) t1(6)] by blast
  from oa_insert_stable[OF hc t1(2) st, of d k v] he t1(6) obtain b t' where
    r: "oa_insert (Suc d) hf t1 k v = Some (Inr (b, t'))" "oa_inv hf t'"
      "table_size t' = table_size t1" "b" "oa_map t' = (oa_map t1)(k \<mapsto> v)"
      "current_size t' = (if oa_map t1 k = None then current_size t1 + 1 else current_size t1)"
      "\<forall>e\<in>set (table t'). state e \<noteq> DELETED"
    by auto
  have "oa_inv hf t' \<and>
           table_size t' =
             (if table_size t < 2 * current_size t then 2 * table_size t else table_size t) \<and>
           (True \<longrightarrow> oa_map t' = (oa_map t)(k \<mapsto> v) \<and>
              current_size t' = (if oa_map t k = None then current_size t + 1 else current_size t)) \<and>
           (\<not> True \<longrightarrow> t' = t) \<and>
           (\<not> True \<longleftrightarrow> \<not> table_size t < 2 * current_size t \<and> oa_map t k = None \<and>
              (\<forall>e\<in>set (table t). state e \<noteq> EMPTY) \<and>
              (\<exists>h. hf k (table_size t) = Inr h \<and> state (table t ! h) = OCCUPIED)) \<and>
           ((\<forall>e\<in>set (table t). state e \<noteq> DELETED) \<longrightarrow> (\<forall>e\<in>set (table t'). state e \<noteq> DELETED))"
    using r t1 True by simp
  moreover have "oa_insert (Suc (Suc d)) hf t k v = Some (Inr (True, t'))"
    using eq r(1,4) by (simp del: oa_insert.simps)
  ultimately show ?thesis by blast
qed

lemma oa_call_inv:
  assumes hc: "hash_contract hf" and inv: "oa_inv hf t"
  shows "\<exists>r t'. oa_call (Suc (Suc d)) hf rq t = Some (Inr (r, t')) \<and> oa_inv hf t'"
proof (cases rq)
  case (Insert k v)
  from oa_insert_effect[OF hc inv, of d k v] obtain b t' where
    "oa_insert (Suc (Suc d)) hf t k v = Some (Inr (b, t'))" "oa_inv hf t'" by blast
  then show ?thesis using Insert by (simp del: oa_insert.simps)
next
  case (Remove k)
  from oa_remove_effect[OF hc inv, of k] obtain b t' where
    "oa_remove hf t k = Some (Inr (b, t'))" "oa_inv hf t'" by blast
  then show ?thesis using Remove by simp
next
  case (Find k)
  then show ?thesis using oa_find_map[OF hc inv, of k] inv by simp
next
  case Clear
  then show ?thesis using oa_inv_clear(1)[OF inv] by simp
qed

lemma oa_run_inv:
  assumes hc: "hash_contract hf"
  shows "oa_inv hf t \<Longrightarrow> \<exists>rs t'. oa_run (Suc (Suc d)) hf rqs t = Some (Inr (rs, t')) \<and> oa_inv hf t'"
proof (induction rqs arbitrary: t)
  case Nil
  then show ?case by simp
next
  case (Cons rq rqs)
  from oa_call_inv[OF hc Cons.prems, of d rq] obtain r t1 where
    1: "oa_call (Suc (Suc d)) hf rq t = Some (Inr (r, t1))" "oa_inv hf t1" by blast
  from Cons.IH[OF 1(2)] obtain rs t' where
    2: "oa_run (Suc (Suc d)) hf rqs t1 = Some (Inr (rs, t'))" "oa_inv hf t'" by blast
  show ?case using 1 2 by (simp del: oa_call.simps)
qed

lemma oa_reachable_inv:
  assumes "hash_contract hf" "0 < n" "2 \<le> depth"
    "oa_run depth hf rqs (oa_new n) = Some (Inr (rs, t))"
  shows "oa_inv hf t"
proof -
  obtain d where d: "depth = Suc (Suc d)" using assms(3) by (metis Suc_le_D numeral_2_eq_2 Suc_le_mono)
  from oa_run_inv[OF assms(1) oa_inv_new(1)[OF assms(2)], of d rqs] assms(4) d
  show ?thesis by auto
qed

lemma keys_simps [simp]:
  "keys Null = {}"
  "keys (Node k v h l r) = insert k (keys l \<union> keys r)"
  by (auto simp: keys_def)

lemma bst_simps [simp]:
  "bst Null"
  "bst (Node k v h l r) \<longleftrightarrow>
     bst l \<and> bst r \<and> (\<forall>x\<in>keys l. x < k) \<and> (\<forall>y\<in>keys r. k < y)"
proof -
  show "bst Null" by (simp add: bst_def)
  have tr: "(\<forall>x\<in>keys l. x < k) \<Longrightarrow> (\<forall>y\<in>keys r. k < y) \<Longrightarrow>
      (\<forall>x\<in>set (inorder l). \<forall>y\<in>set (inorder r). fst x < fst y)"
    unfolding keys_def by (meson imageI less_trans)
  show "bst (Node k v h l r) \<longleftrightarrow>
     bst l \<and> bst r \<and> (\<forall>x\<in>keys l. x < k) \<and> (\<forall>y\<in>keys r. k < y)"
    using tr by (auto simp: bst_def keys_def sorted_wrt_append)
qed

lemma avl_height_nonneg: "avl t \<Longrightarrow> 0 \<le> get_height t"
  by (induction t) auto

lemma avl_height_pos: "avl (Node k v h l r) \<Longrightarrow> 1 \<le> h"
  using avl_height_nonneg[of l] avl_height_nonneg[of r] by auto

lemma avl_height_zero: "avl t \<Longrightarrow> get_height t = 0 \<longleftrightarrow> t = Null"
proof (cases t)
  case Null
  then show ?thesis by simp
next
  case (Node k v h l r)
  assume "avl t"
  then have "1 \<le> h" using Node avl_height_pos[of k v h l r] by simp
  then show ?thesis using Node by simp
qed

lemma find_avl_iff:
  "bst t \<Longrightarrow> (find_avl t k = Some v) = ((k, v) \<in> set (inorder t))"
proof (induction t)
  case Null
  then show ?case by simp
next
  case (Node nk nv nh l r)
  have l: "\<And>a b. (a, b) \<in> set (inorder l) \<Longrightarrow> a < nk"
    using Node.prems by (auto simp: keys_def)
  have r: "\<And>a b. (a, b) \<in> set (inorder r) \<Longrightarrow> nk < a"
    using Node.prems by (auto simp: keys_def)
  show ?case using Node l r by (auto dest: l r)
qed

lemma find_avl_None_iff: "bst t \<Longrightarrow> (find_avl t k = None) = (k \<notin> keys t)"
proof (induction t)
  case Null
  then show ?case by simp
next
  case (Node nk nv nh l r)
  then show ?case by (auto)
qed

subsection \<open>Rotations and rebalancing after an insertion\<close>

lemma insert_rebalance_left:
  assumes al: "avl l" and ar: "avl r"
    and up: "get_height l \<le> get_height r + 2" and lo: "get_height r \<le> get_height l + 1"
    and g: "get_height l = get_height r + 2 \<longrightarrow> grew l k"
  shows "\<exists>t'. insert_rebalance (Node nk nv nh l r) k = Inr t' \<and> avl t' \<and>
           inorder t' = inorder l @ (nk, nv) # inorder r \<and>
           (get_height l \<le> get_height r + 1 \<longrightarrow>
              t' = Node nk nv (1 + max (get_height l) (get_height r)) l r) \<and>
           (get_height l = get_height r + 2 \<longrightarrow> get_height t' = get_height r + 2)"
proof (cases "get_height l \<le> get_height r + 1")
  case True
  then show ?thesis using al ar lo by (simp add: Let_def)
next
  case False
  then have h2: "get_height l = get_height r + 2" using up by simp
  have r0: "0 \<le> get_height r" using ar by (rule avl_height_nonneg)
  from h2 g have gr: "grew l k" by simp
  then obtain lk lv lh ll lr where l: "l = Node lk lv lh ll lr" by (cases l) auto
  have all: "avl ll" and alr: "avl lr" using al l by simp_all
  have lh: "lh = get_height r + 2" using h2 l by simp
  show ?thesis
  proof (cases "k < lk")
    case True
    then have "get_height ll = get_height lr + 1" using gr l by simp
    then show ?thesis using al ar l lh True h2 by (simp add: Let_def)
  next
    case nlt: False
    show ?thesis
    proof (cases "lk < k")
      case True
      then have e: "get_height lr = get_height ll + 1" using gr l nlt by simp
      have "lr \<noteq> Null" using e avl_height_nonneg[OF all] by auto
      then obtain mk mv mh ml mr where lr: "lr = Node mk mv mh ml mr" by (cases lr) auto
      show ?thesis using al ar l lr lh True nlt h2 e by (auto simp: Let_def)
    next
      case False
      then have "ll = Null \<and> lr = Null" using gr l nlt by simp
      then have "lh = 1" using al l by simp
      then show ?thesis using lh r0 by simp
    qed
  qed
qed

lemma insert_rebalance_right:
  assumes al: "avl l" and ar: "avl r"
    and up: "get_height r \<le> get_height l + 2" and lo: "get_height l \<le> get_height r + 1"
    and g: "get_height r = get_height l + 2 \<longrightarrow> grew r k"
  shows "\<exists>t'. insert_rebalance (Node nk nv nh l r) k = Inr t' \<and> avl t' \<and>
           inorder t' = inorder l @ (nk, nv) # inorder r \<and>
           (get_height r \<le> get_height l + 1 \<longrightarrow>
              t' = Node nk nv (1 + max (get_height l) (get_height r)) l r) \<and>
           (get_height r = get_height l + 2 \<longrightarrow> get_height t' = get_height l + 2)"
proof (cases "get_height r \<le> get_height l + 1")
  case True
  then show ?thesis using al ar lo by (simp add: Let_def)
next
  case False
  then have h2: "get_height r = get_height l + 2" using up by simp
  have l0: "0 \<le> get_height l" using al by (rule avl_height_nonneg)
  from h2 g have gr: "grew r k" by simp
  then obtain rk rv rh rl rr where r: "r = Node rk rv rh rl rr" by (cases r) auto
  have arl: "avl rl" and arr: "avl rr" using ar r by simp_all
  have rh: "rh = get_height l + 2" using h2 r by simp
  show ?thesis
  proof (cases "rk < k")
    case True
    then have "get_height rr = get_height rl + 1" using gr r by simp
    then show ?thesis using al ar r rh True h2 by (simp add: Let_def)
  next
    case nlt: False
    show ?thesis
    proof (cases "k < rk")
      case True
      then have e: "get_height rl = get_height rr + 1" using gr r nlt by simp
      have "rl \<noteq> Null" using e avl_height_nonneg[OF arr] by auto
      then obtain mk mv mh ml mr where rl: "rl = Node mk mv mh ml mr" by (cases rl) auto
      show ?thesis using al ar r rl rh True nlt h2 e by (auto simp: Let_def)
    next
      case False
      then have "rl = Null \<and> rr = Null" using gr r nlt by auto
      then have "rh = 1" using ar r by simp
      then show ?thesis using rh l0 by simp
    qed
  qed
qed

lemma same_inorder:
  assumes "inorder t1 = inorder t2"
  shows "bst t1 = bst t2" and "keys t1 = keys t2"
  using assms by (simp_all add: bst_def keys_def)

lemma in_keys: "(a, b) \<in> set (inorder t) \<Longrightarrow> a \<in> keys t"
  by (force simp: keys_def)

lemma insert_avl_ok:
  assumes "avl t" "bst t"
  shows "\<exists>t' b. insert_avl t k v = Inr (t', b) \<and> avl t' \<and> bst t' \<and>
     set (inorder t') = insert (k, v) {p \<in> set (inorder t). fst p \<noteq> k} \<and>
     keys t' = insert k (keys t) \<and> (b \<longleftrightarrow> k \<notin> keys t) \<and>
     length (inorder t') = length (inorder t) + (if b then 1 else 0) \<and>
     (get_height t' = get_height t \<or> (get_height t' = get_height t + 1 \<and> grew t' k))"
  using assms
proof (induction t)
  case Null
  then show ?case by (intro exI[of _ "Node k v 1 Null Null"] exI[of _ True]) simp
next
  case (Node nk nv nh l r)
  have al: "avl l" and ar: "avl r" and bal: "\<bar>get_height l - get_height r\<bar> \<le> 1"
    and nh: "nh = 1 + max (get_height l) (get_height r)"
    using Node.prems(1) by simp_all
  have bl: "bst l" and br: "bst r" and kl: "\<forall>x\<in>keys l. x < nk" and kr: "\<forall>y\<in>keys r. nk < y"
    using Node.prems(2) by simp_all
  show ?case
  proof (cases "k < nk")
    case True
    from Node.IH(1)[OF al bl] obtain l' b where
      l': "insert_avl l k v = Inr (l', b)" "avl l'" "bst l'"
        "set (inorder l') = insert (k, v) {p \<in> set (inorder l). fst p \<noteq> k}"
        "keys l' = insert k (keys l)" "b \<longleftrightarrow> k \<notin> keys l"
        "length (inorder l') = length (inorder l) + (if b then 1 else 0)"
        "get_height l' = get_height l \<or> (get_height l' = get_height l + 1 \<and> grew l' k)"
      by blast
    have up: "get_height l' \<le> get_height r + 2" and lo: "get_height r \<le> get_height l' + 1"
      and g: "get_height l' = get_height r + 2 \<longrightarrow> grew l' k"
      using l'(8) bal by auto
    from insert_rebalance_left[OF l'(2) ar up lo g, of nk nv nh] obtain t' where
      t': "insert_rebalance (Node nk nv nh l' r) k = Inr t'" "avl t'"
        "inorder t' = inorder l' @ (nk, nv) # inorder r"
        "get_height l' \<le> get_height r + 1 \<longrightarrow>
              t' = Node nk nv (1 + max (get_height l') (get_height r)) l' r"
        "get_height l' = get_height r + 2 \<longrightarrow> get_height t' = get_height r + 2"
      by blast
    have io: "inorder t' = inorder (Node nk nv nh l' r)" using t'(3) by simp
    have res: "insert_avl (Node nk nv nh l r) k v = Inr (t', b)"
      using True l'(1) t'(1) by simp
    have b1: "bst t'"
      using same_inorder(1)[OF io] l'(3,5) br kl kr True by simp
    have k1: "keys t' = insert k (keys (Node nk nv nh l r))"
      using same_inorder(2)[OF io] l'(5) by auto
    have rk: "\<And>p. p \<in> set (inorder r) \<Longrightarrow> fst p \<noteq> k"
      using kr True in_keys[of _ _ r] by (metis less_asym' prod.collapse)
    have s1: "set (inorder t') = insert (k, v) {p \<in> set (inorder (Node nk nv nh l r)). fst p \<noteq> k}"
      using t'(3) l'(4) True rk by auto
    have f1: "b \<longleftrightarrow> k \<notin> keys (Node nk nv nh l r)"
      using l'(6) True kr by auto
    have n1: "length (inorder t') = length (inorder (Node nk nv nh l r)) + (if b then 1 else 0)"
      using t'(3) l'(7) by simp
    have h1: "get_height t' = get_height (Node nk nv nh l r) \<or>
        (get_height t' = get_height (Node nk nv nh l r) + 1 \<and> grew t' k)"
    proof (cases "get_height l' \<le> get_height r + 1")
      case le: True
      then have "t' = Node nk nv (1 + max (get_height l') (get_height r)) l' r" using t'(4) by simp
      then show ?thesis using l'(8) nh bal le True by auto
    next
      case False
      then have "get_height l' = get_height r + 2" using up by simp
      then show ?thesis using t'(5) l'(8) nh bal by auto
    qed
    show ?thesis using res t'(2) b1 s1 k1 f1 n1 h1 by blast
  next
    case nlt: False
    show ?thesis
    proof (cases "nk < k")
      case True
      from Node.IH(2)[OF ar br] obtain r' b where
        r': "insert_avl r k v = Inr (r', b)" "avl r'" "bst r'"
          "set (inorder r') = insert (k, v) {p \<in> set (inorder r). fst p \<noteq> k}"
          "keys r' = insert k (keys r)" "b \<longleftrightarrow> k \<notin> keys r"
          "length (inorder r') = length (inorder r) + (if b then 1 else 0)"
          "get_height r' = get_height r \<or> (get_height r' = get_height r + 1 \<and> grew r' k)"
        by blast
      have up: "get_height r' \<le> get_height l + 2" and lo: "get_height l \<le> get_height r' + 1"
        and g: "get_height r' = get_height l + 2 \<longrightarrow> grew r' k"
        using r'(8) bal by auto
      from insert_rebalance_right[OF al r'(2) up lo g, of nk nv nh] obtain t' where
        t': "insert_rebalance (Node nk nv nh l r') k = Inr t'" "avl t'"
          "inorder t' = inorder l @ (nk, nv) # inorder r'"
          "get_height r' \<le> get_height l + 1 \<longrightarrow>
                t' = Node nk nv (1 + max (get_height l) (get_height r')) l r'"
          "get_height r' = get_height l + 2 \<longrightarrow> get_height t' = get_height l + 2"
        by blast
      have io: "inorder t' = inorder (Node nk nv nh l r')" using t'(3) by simp
      have res: "insert_avl (Node nk nv nh l r) k v = Inr (t', b)"
        using True nlt r'(1) t'(1) by simp
      have b1: "bst t'"
        using same_inorder(1)[OF io] r'(3,5) bl kl kr True by simp
      have k1: "keys t' = insert k (keys (Node nk nv nh l r))"
        using same_inorder(2)[OF io] r'(5) by auto
      have lk: "\<And>p. p \<in> set (inorder l) \<Longrightarrow> fst p \<noteq> k"
        using kl True in_keys[of _ _ l] by (metis less_asym' prod.collapse)
      have s1: "set (inorder t') = insert (k, v) {p \<in> set (inorder (Node nk nv nh l r)). fst p \<noteq> k}"
        using t'(3) r'(4) True lk by auto
      have f1: "b \<longleftrightarrow> k \<notin> keys (Node nk nv nh l r)"
        using r'(6) True kl by auto
      have n1: "length (inorder t') = length (inorder (Node nk nv nh l r)) + (if b then 1 else 0)"
        using t'(3) r'(7) by simp
      have h1: "get_height t' = get_height (Node nk nv nh l r) \<or>
          (get_height t' = get_height (Node nk nv nh l r) + 1 \<and> grew t' k)"
      proof (cases "get_height r' \<le> get_height l + 1")
        case le: True
        then have "t' = Node nk nv (1 + max (get_height l) (get_height r')) l r'" using t'(4) by simp
        then show ?thesis using r'(8) nh bal le True nlt by auto
      next
        case False
        then have "get_height r' = get_height l + 2" using up by simp
        then show ?thesis using t'(5) r'(8) nh bal by auto
      qed
      show ?thesis using res t'(2) b1 s1 k1 f1 n1 h1 by blast
    next
      case False
      then have e: "k = nk" using nlt by simp
      have lk: "\<And>p. p \<in> set (inorder l) \<Longrightarrow> fst p \<noteq> k"
        using kl e in_keys[of _ _ l] by (metis less_irrefl prod.collapse)
      have rk: "\<And>p. p \<in> set (inorder r) \<Longrightarrow> fst p \<noteq> k"
        using kr e in_keys[of _ _ r] by (metis less_irrefl prod.collapse)
      have res: "insert_avl (Node nk nv nh l r) k v = Inr (Node nk v nh l r, False)"
        using e by simp
      have s1: "set (inorder (Node nk v nh l r)) =
          insert (k, v) {p \<in> set (inorder (Node nk nv nh l r)). fst p \<noteq> k}"
        using e lk rk by auto
      show ?thesis
        using res Node.prems s1 e by (intro exI[of _ "Node nk v nh l r"] exI[of _ False]) simp
    qed
  qed
qed

subsection \<open>Rebalancing after a removal\<close>

lemma remove_rebalance_ok:
  assumes al: "avl l" and ar: "avl r" and d: "\<bar>get_height l - get_height r\<bar> \<le> 2"
  shows "\<exists>t'. remove_rebalance (Node nk nv nh l r) = Inr t' \<and> avl t' \<and>
           inorder t' = inorder l @ (nk, nv) # inorder r \<and>
           (\<bar>get_height l - get_height r\<bar> \<le> 1 \<longrightarrow>
              t' = Node nk nv (1 + max (get_height l) (get_height r)) l r) \<and>
           (get_height t' = 1 + max (get_height l) (get_height r) \<or>
            get_height t' = max (get_height l) (get_height r))"
proof -
  have l0: "0 \<le> get_height l" and r0: "0 \<le> get_height r"
    using al ar by (simp_all add: avl_height_nonneg)
  consider (ok) "\<bar>get_height l - get_height r\<bar> \<le> 1"
    | (left) "get_height l = get_height r + 2"
    | (right) "get_height r = get_height l + 2"
    using d by linarith
  then show ?thesis
  proof cases
    case ok
    then show ?thesis using al ar by (auto simp: Let_def)
  next
    case left
    then have "l \<noteq> Null" using r0 by auto
    then obtain lk lv lh ll lr where l: "l = Node lk lv lh ll lr" by (cases l) auto
    have all: "avl ll" and alr: "avl lr" using al l by simp_all
    show ?thesis
    proof (cases "0 \<le> get_balance l")
      case True
      then show ?thesis using al ar l left by (auto simp: Let_def)
    next
      case False
      then have e: "get_height ll < get_height lr" using l by simp
      then have "lr \<noteq> Null" using avl_height_nonneg[OF all] by auto
      then obtain mk mv mh ml mr where lr: "lr = Node mk mv mh ml mr" by (cases lr) auto
      show ?thesis using al ar l lr left False e by (auto simp: Let_def)
    qed
  next
    case right
    then have "r \<noteq> Null" using l0 by auto
    then obtain rk rv rh rl rr where r: "r = Node rk rv rh rl rr" by (cases r) auto
    have arl: "avl rl" and arr: "avl rr" using ar r by simp_all
    show ?thesis
    proof (cases "get_balance r \<le> 0")
      case True
      then show ?thesis using al ar r right by (auto simp: Let_def)
    next
      case False
      then have e: "get_height rr < get_height rl" using r by simp
      then have "rl \<noteq> Null" using avl_height_nonneg[OF arr] by auto
      then obtain mk mv mh ml mr where rl: "rl = Node mk mv mh ml mr" by (cases rl) auto
      show ?thesis using al ar r rl right False e by (auto simp: Let_def)
    qed
  qed
qed

lemma remove_rebalance_avl: "avl t \<Longrightarrow> remove_rebalance t = Inr t"
  by (cases t) (auto simp: Let_def)

lemma find_min_ok:
  "t \<noteq> Null \<Longrightarrow> \<exists>tk tv th a b rest. find_min t = Inr (Node tk tv th a b) \<and>
      inorder t = (tk, tv) # rest"
proof (induction t)
  case Null
  then show ?case by simp
next
  case (Node k v h l r)
  show ?case
  proof (cases "l = Null")
    case True
    then show ?thesis by simp
  next
    case False
    from Node.IH(1)[OF False] obtain tk tv th a b rest where
      "find_min l = Inr (Node tk tv th a b)" "inorder l = (tk, tv) # rest" by blast
    then show ?thesis using False by simp
  qed
qed

lemma bst_unique:
  assumes "bst t" "(a, b) \<in> set (inorder t)" "(a, b') \<in> set (inorder t)"
  shows "b = b'"
  using find_avl_iff[OF assms(1), of a b] find_avl_iff[OF assms(1), of a b'] assms(2,3) by simp

lemma not_in_keys: "k \<notin> keys t \<Longrightarrow> {p \<in> set (inorder t). fst p \<noteq> k} = set (inorder t)"
  by (auto simp: keys_def)

lemma remove_avl_ok:
  assumes "avl t" "bst t"
  shows "\<exists>t' b. remove_avl t k = Inr (t', b) \<and> avl t' \<and> bst t' \<and>
     set (inorder t') = {p \<in> set (inorder t). fst p \<noteq> k} \<and>
     keys t' = keys t - {k} \<and> (b \<longleftrightarrow> k \<in> keys t) \<and>
     length (inorder t') + (if b then 1 else 0) = length (inorder t) \<and>
     (get_height t' = get_height t \<or> get_height t' = get_height t - 1) \<and>
     (\<not> b \<longrightarrow> t' = t)"
  using assms
proof (induction t arbitrary: k)
  case Null
  then show ?case by (intro exI[of _ Null] exI[of _ False]) simp
next
  case (Node nk nv nh l r)
  have al: "avl l" and ar: "avl r" and bal: "\<bar>get_height l - get_height r\<bar> \<le> 1"
    and nh: "nh = 1 + max (get_height l) (get_height r)"
    using Node.prems(1) by simp_all
  have bl: "bst l" and br: "bst r" and kl: "\<forall>x\<in>keys l. x < nk" and kr: "\<forall>y\<in>keys r. nk < y"
    using Node.prems(2) by simp_all
  have l0: "0 \<le> get_height l" and r0: "0 \<le> get_height r"
    using al ar by (simp_all add: avl_height_nonneg)
  have lne: "\<And>p. p \<in> set (inorder l) \<Longrightarrow> fst p < nk"
    using kl by (auto simp: keys_def)
  have rne: "\<And>p. p \<in> set (inorder r) \<Longrightarrow> nk < fst p"
    using kr by (auto simp: keys_def)
  show ?case
  proof (cases "k < nk")
    case True
    from Node.IH(1)[OF al bl, of k] obtain l' b where
      l': "remove_avl l k = Inr (l', b)" "avl l'" "bst l'"
        "set (inorder l') = {p \<in> set (inorder l). fst p \<noteq> k}"
        "keys l' = keys l - {k}" "b \<longleftrightarrow> k \<in> keys l"
        "length (inorder l') + (if b then 1 else 0) = length (inorder l)"
        "get_height l' = get_height l \<or> get_height l' = get_height l - 1"
        "\<not> b \<longrightarrow> l' = l"
      by blast
    have d: "\<bar>get_height l' - get_height r\<bar> \<le> 2" using l'(8) bal by auto
    from remove_rebalance_ok[OF l'(2) ar d, of nk nv nh] obtain t' where
      t': "remove_rebalance (Node nk nv nh l' r) = Inr t'" "avl t'"
        "inorder t' = inorder l' @ (nk, nv) # inorder r"
        "\<bar>get_height l' - get_height r\<bar> \<le> 1 \<longrightarrow>
              t' = Node nk nv (1 + max (get_height l') (get_height r)) l' r"
        "get_height t' = 1 + max (get_height l') (get_height r) \<or>
            get_height t' = max (get_height l') (get_height r)"
      by blast
    have io: "inorder t' = inorder (Node nk nv nh l' r)" using t'(3) by simp
    have res: "remove_avl (Node nk nv nh l r) k = Inr (t', b)"
      using True l'(1) t'(1) by simp
    have b1: "bst t'" using same_inorder(1)[OF io] l'(3,5) br kl kr by simp
    have k1: "keys t' = keys (Node nk nv nh l r) - {k}"
      using same_inorder(2)[OF io] l'(5) True kr by auto
    have s1: "set (inorder t') = {p \<in> set (inorder (Node nk nv nh l r)). fst p \<noteq> k}"
      using t'(3) l'(4) True rne by force
    have f1: "b \<longleftrightarrow> k \<in> keys (Node nk nv nh l r)" using l'(6) True kr by auto
    have n1: "length (inorder t') + (if b then 1 else 0) = length (inorder (Node nk nv nh l r))"
      using t'(3) l'(7) by simp
    have h1: "get_height t' = get_height (Node nk nv nh l r) \<or>
        get_height t' = get_height (Node nk nv nh l r) - 1"
    proof (cases "\<bar>get_height l' - get_height r\<bar> \<le> 1")
      case le: True
      then have "t' = Node nk nv (1 + max (get_height l') (get_height r)) l' r" using t'(4) by simp
      then show ?thesis using l'(8) nh bal by auto
    next
      case False
      then show ?thesis using t'(5) l'(8) nh bal by auto
    qed
    have u1: "\<not> b \<longrightarrow> t' = Node nk nv nh l r" using l'(9) t'(4) bal nh by auto
    show ?thesis using res t'(2) b1 s1 k1 f1 n1 h1 u1 by blast
  next
    case nlt: False
    show ?thesis
    proof (cases "nk < k")
      case True
      from Node.IH(2)[OF ar br, of k] obtain r' b where
        r': "remove_avl r k = Inr (r', b)" "avl r'" "bst r'"
          "set (inorder r') = {p \<in> set (inorder r). fst p \<noteq> k}"
          "keys r' = keys r - {k}" "b \<longleftrightarrow> k \<in> keys r"
          "length (inorder r') + (if b then 1 else 0) = length (inorder r)"
          "get_height r' = get_height r \<or> get_height r' = get_height r - 1"
          "\<not> b \<longrightarrow> r' = r"
        by blast
      have d: "\<bar>get_height l - get_height r'\<bar> \<le> 2" using r'(8) bal by auto
      from remove_rebalance_ok[OF al r'(2) d, of nk nv nh] obtain t' where
        t': "remove_rebalance (Node nk nv nh l r') = Inr t'" "avl t'"
          "inorder t' = inorder l @ (nk, nv) # inorder r'"
          "\<bar>get_height l - get_height r'\<bar> \<le> 1 \<longrightarrow>
                t' = Node nk nv (1 + max (get_height l) (get_height r')) l r'"
          "get_height t' = 1 + max (get_height l) (get_height r') \<or>
              get_height t' = max (get_height l) (get_height r')"
        by blast
      have io: "inorder t' = inorder (Node nk nv nh l r')" using t'(3) by simp
      have res: "remove_avl (Node nk nv nh l r) k = Inr (t', b)"
        using True nlt r'(1) t'(1) by simp
      have b1: "bst t'" using same_inorder(1)[OF io] r'(3,5) bl kl kr by simp
      have k1: "keys t' = keys (Node nk nv nh l r) - {k}"
        using same_inorder(2)[OF io] r'(5) True kl by auto
      have s1: "set (inorder t') = {p \<in> set (inorder (Node nk nv nh l r)). fst p \<noteq> k}"
        using t'(3) r'(4) True lne by force
      have f1: "b \<longleftrightarrow> k \<in> keys (Node nk nv nh l r)" using r'(6) True kl by auto
      have n1: "length (inorder t') + (if b then 1 else 0) = length (inorder (Node nk nv nh l r))"
        using t'(3) r'(7) by simp
      have h1: "get_height t' = get_height (Node nk nv nh l r) \<or>
          get_height t' = get_height (Node nk nv nh l r) - 1"
      proof (cases "\<bar>get_height l - get_height r'\<bar> \<le> 1")
        case le: True
        then have "t' = Node nk nv (1 + max (get_height l) (get_height r')) l r'" using t'(4) by simp
        then show ?thesis using r'(8) nh bal by auto
      next
        case False
        then show ?thesis using t'(5) r'(8) nh bal by auto
      qed
      have u1: "\<not> b \<longrightarrow> t' = Node nk nv nh l r" using r'(9) t'(4) bal nh by auto
      show ?thesis using res t'(2) b1 s1 k1 f1 n1 h1 u1 by blast
    next
      case False
      then have e: "k = nk" using nlt by simp
      have sl: "{p \<in> set (inorder l). fst p \<noteq> k} = set (inorder l)" using lne e by auto
      have sr: "{p \<in> set (inorder r). fst p \<noteq> k} = set (inorder r)" using rne e by auto
      have kln: "k \<notin> keys l" and krn: "k \<notin> keys r" using kl kr e by auto
      show ?thesis
      proof (cases "l = Null \<or> r = Null")
        case True
        define temp where "temp = (if l \<noteq> Null then l else r)"
        have at: "avl temp" and bt: "bst temp" using al ar bl br by (simp_all add: temp_def)
        have res: "remove_avl (Node nk nv nh l r) k = Inr (temp, True)"
          using e True remove_rebalance_avl[OF at] by (simp add: temp_def)
        have it: "inorder l @ inorder r = inorder temp" using True by (auto simp: temp_def)
        have s1: "set (inorder temp) = {p \<in> set (inorder (Node nk nv nh l r)). fst p \<noteq> k}"
          using it[symmetric] sl sr e by auto
        have k1: "keys temp = keys (Node nk nv nh l r) - {k}"
          using it[symmetric] kln krn e by (auto simp: keys_def)
        have n1: "length (inorder temp) + 1 = length (inorder (Node nk nv nh l r))"
          using it[symmetric] by simp
        have h1: "get_height temp = get_height (Node nk nv nh l r) - 1"
          using True nh l0 r0 by (auto simp: temp_def)
        show ?thesis
          using res at bt s1 k1 n1 h1 e
          by (intro exI[of _ temp] exI[of _ True]) simp
      next
        case both: False
        then have rn: "r \<noteq> Null" by simp
        from find_min_ok[OF rn] obtain tk tv th a b rest where
          fm: "find_min r = Inr (Node tk tv th a b)" "inorder r = (tk, tv) # rest" by blast
        have tin: "(tk, tv) \<in> set (inorder r)" using fm(2) by simp
        have tkr: "tk \<in> keys r" using tin by (rule in_keys)
        have rest: "\<forall>x\<in>set rest. tk < fst x" using br fm(2) by (simp add: bst_def)
        from Node.IH(2)[OF ar br, of tk] tkr obtain r' where
          r': "remove_avl r tk = Inr (r', True)" "avl r'" "bst r'"
            "set (inorder r') = {p \<in> set (inorder r). fst p \<noteq> tk}"
            "keys r' = keys r - {tk}"
            "length (inorder r') + 1 = length (inorder r)"
            "get_height r' = get_height r \<or> get_height r' = get_height r - 1"
          by auto
        have d: "\<bar>get_height l - get_height r'\<bar> \<le> 2" using r'(7) bal by auto
        from remove_rebalance_ok[OF al r'(2) d, of tk tv nh] obtain t' where
          t': "remove_rebalance (Node tk tv nh l r') = Inr t'" "avl t'"
            "inorder t' = inorder l @ (tk, tv) # inorder r'"
            "\<bar>get_height l - get_height r'\<bar> \<le> 1 \<longrightarrow>
                  t' = Node tk tv (1 + max (get_height l) (get_height r')) l r'"
            "get_height t' = 1 + max (get_height l) (get_height r') \<or>
                get_height t' = max (get_height l) (get_height r')"
          by blast
        have io: "inorder t' = inorder (Node tk tv nh l r')" using t'(3) by simp
        have res: "remove_avl (Node nk nv nh l r) k = Inr (t', True)"
          using e both fm(1) r'(1) t'(1) by simp
        have nktk: "nk < tk" using kr tkr by simp
        have kl': "\<forall>x\<in>keys l. x < tk" using kl nktk by auto
        have kr': "\<forall>y\<in>keys r'. tk < y"
        proof
          fix y assume "y \<in> keys r'"
          then have "y \<in> keys r" "y \<noteq> tk" using r'(5) by auto
          then obtain z where "(y, z) \<in> set (inorder r)" by (auto simp: keys_def)
          then have "(y, z) \<in> set rest" using fm(2) \<open>y \<noteq> tk\<close> by auto
          then show "tk < y" using rest by auto
        qed
        have b1: "bst t'" using same_inorder(1)[OF io] r'(3) bl kl' kr' by simp
        have uniq: "\<And>p. p \<in> set (inorder r) \<Longrightarrow> fst p = tk \<Longrightarrow> p = (tk, tv)"
          using bst_unique[OF br _ tin] by (metis prod.collapse)
        have sr': "insert (tk, tv) (set (inorder r')) = set (inorder r)"
        proof
          show "insert (tk, tv) (set (inorder r')) \<subseteq> set (inorder r)" using r'(4) tin by auto
          show "set (inorder r) \<subseteq> insert (tk, tv) (set (inorder r'))"
          proof
            fix p assume p: "p \<in> set (inorder r)"
            show "p \<in> insert (tk, tv) (set (inorder r'))"
            proof (cases "fst p = tk")
              case True
              then have "p = (tk, tv)" using uniq[OF p] by simp
              then show ?thesis by simp
            next
              case False
              then show ?thesis using p r'(4) by simp
            qed
          qed
        qed
        have s1: "set (inorder t') = {p \<in> set (inorder (Node nk nv nh l r)). fst p \<noteq> k}"
          using t'(3) sr' sl sr e by auto
        have k1: "keys t' = keys (Node nk nv nh l r) - {k}"
          using same_inorder(2)[OF io] r'(5) tkr kln krn e by auto
        have n1: "length (inorder t') + 1 = length (inorder (Node nk nv nh l r))"
          using t'(3) r'(6) by simp
        have h1: "get_height t' = get_height (Node nk nv nh l r) \<or>
            get_height t' = get_height (Node nk nv nh l r) - 1"
        proof (cases "\<bar>get_height l - get_height r'\<bar> \<le> 1")
          case le: True
          then have "t' = Node tk tv (1 + max (get_height l) (get_height r')) l r'"
            using t'(4) by simp
          then show ?thesis using r'(7) nh bal by auto
        next
          case False
          then show ?thesis using t'(5) r'(7) nh bal by auto
        qed
        show ?thesis
          using res t'(2) b1 s1 k1 n1 h1 e
          by (intro exI[of _ t'] exI[of _ True]) simp
      qed
    qed
  qed
qed

declare avlht_insert.simps [simp del]

subsection \<open>Trees as finite maps\<close>

lemma find_avl_insert:
  assumes "avl t" "bst t" "insert_avl t k v = Inr (t', b)"
  shows "find_avl t' k' = (if k' = k then Some v else find_avl t k')"
proof -
  from insert_avl_ok[OF assms(1,2), of k v] assms(3) have
    b': "bst t'" and s: "set (inorder t') = insert (k, v) {p \<in> set (inorder t). fst p \<noteq> k}"
    by auto
  show ?thesis
  proof (rule option_eqI)
    fix w
    show "(find_avl t' k' = Some w) = ((if k' = k then Some v else find_avl t k') = Some w)"
      using find_avl_iff[OF b', of k' w] find_avl_iff[OF assms(2), of k' w] s by auto
  qed
qed

lemma find_avl_remove:
  assumes "avl t" "bst t" "remove_avl t k = Inr (t', b)"
  shows "find_avl t' k' = (if k' = k then None else find_avl t k')"
proof -
  from remove_avl_ok[OF assms(1,2), of k] assms(3) have
    b': "bst t'" and s: "set (inorder t') = {p \<in> set (inorder t). fst p \<noteq> k}"
    by auto
  show ?thesis
  proof (rule option_eqI)
    fix w
    show "(find_avl t' k' = Some w) = ((if k' = k then None else find_avl t k') = Some w)"
      using find_avl_iff[OF b', of k' w] find_avl_iff[OF assms(2), of k' w] s by auto
  qed
qed

lemma sum_update:
  "i < length xs \<Longrightarrow>
   sum_list (map f (xs[i := y])) + f (xs ! i) = sum_list (map f xs) + (f y :: nat)"
proof (induction xs arbitrary: i)
  case Nil
  then show ?case by simp
next
  case (Cons x xs)
  show ?case
  proof (cases i)
    case 0
    then show ?thesis by simp
  next
    case (Suc j)
    then have "j < length xs" using Cons.prems by simp
    from Cons.IH[OF this] show ?thesis using Suc by simp
  qed
qed

subsection \<open>find, insert without growth, remove\<close>

lemma avlht_hash:
  assumes hc: "hash_contract hf" and inv: "avlht_inv hf t"
  shows "\<exists>i. hf k (table_size t) = Inr i \<and> i < length (table t) \<and>
           slot_at (table t) i = Inr (table t ! i) \<and>
           avlht_map hf t k = find_avl (table t ! i) k \<and>
           avl (table t ! i) \<and> bst (table t ! i)"
proof -
  have len: "length (table t) = table_size t" and n0: "0 < table_size t"
    using inv by (simp_all add: avlht_inv_def)
  from hc n0 obtain i where i: "hf k (table_size t) = Inr i" "i < table_size t"
    unfolding hash_contract_def by blast
  then show ?thesis using len inv by (auto simp: slot_at_def avlht_map_def avlht_inv_def)
qed

lemma avlht_find_map:
  assumes hc: "hash_contract hf" and inv: "avlht_inv hf t"
  shows "avlht_find hf t k = Inr (avlht_map hf t k)"
  using avlht_hash[OF hc inv, of k] by (auto simp: avlht_find_def)

lemma avlht_map_update:
  assumes hc: "hash_contract hf" and inv: "avlht_inv hf t"
    and i: "hf k (table_size t) = Inr i"
    and f: "\<And>k'. find_avl root' k' = (if k' = k then new else find_avl (table t ! i) k')"
  shows "avlht_map hf (t\<lparr>table := (table t)[i := root'], current_size := c\<rparr>) =
         (avlht_map hf t)(k := new)"
proof
  fix k'
  have len: "length (table t) = table_size t" and n0: "0 < table_size t"
    using inv by (simp_all add: avlht_inv_def)
  from hc n0 obtain j where j: "hf k' (table_size t) = Inr j" "j < table_size t"
    unfolding hash_contract_def by blast
  show "avlht_map hf (t\<lparr>table := (table t)[i := root'], current_size := c\<rparr>) k' =
         ((avlht_map hf t)(k := new)) k'"
  proof (cases "j = i")
    case True
    then show ?thesis using j len f[of k'] by (simp add: avlht_map_def)
  next
    case False
    then have "k' \<noteq> k" using i j by auto
    then show ?thesis using j len False by (simp add: avlht_map_def)
  qed
qed

lemma avlht_inv_update:
  assumes inv: "avlht_inv hf t" and i: "i < table_size t"
    and a: "avl root'" and b: "bst root'"
    and ks: "\<forall>k\<in>keys root'. hf k (table_size t) = Inr i"
    and c: "c + nodes (table t ! i) = current_size t + nodes root'"
    and bound: "c \<le> table_size t + 1"
  shows "avlht_inv hf (t\<lparr>table := (table t)[i := root'], current_size := c\<rparr>)"
proof -
  have len: "length (table t) = table_size t" using inv by (simp add: avlht_inv_def)
  have s: "sum_list (map nodes ((table t)[i := root'])) + nodes (table t ! i) =
      sum_list (map nodes (table t)) + nodes root'"
    using sum_update[of i "table t" nodes root'] i len by simp
  have cs: "c = sum_list (map nodes ((table t)[i := root']))"
    using s c inv by (simp add: avlht_inv_def)
  have bk: "\<forall>j<length (table t). avl ((table t)[i := root'] ! j) \<and> bst ((table t)[i := root'] ! j) \<and>
        (\<forall>k\<in>keys ((table t)[i := root'] ! j). hf k (table_size t) = Inr j)"
  proof (intro allI impI)
    fix j assume "j < length (table t)"
    then show "avl ((table t)[i := root'] ! j) \<and> bst ((table t)[i := root'] ! j) \<and>
        (\<forall>k\<in>keys ((table t)[i := root'] ! j). hf k (table_size t) = Inr j)"
      using inv a b ks by (cases "j = i") (auto simp: avlht_inv_def)
  qed
  show ?thesis using inv cs bk bound by (simp add: avlht_inv_def)
qed

lemma avlht_insert_stable:
  assumes hc: "hash_contract hf" and inv: "avlht_inv hf t"
    and nr: "\<not> table_size t < current_size t"
  shows "\<exists>t'. avlht_insert (Suc d) hf t k v = Some (Inr (True, t')) \<and> avlht_inv hf t' \<and>
           table_size t' = table_size t \<and>
           avlht_map hf t' = (avlht_map hf t)(k \<mapsto> v) \<and>
           current_size t' =
             (if avlht_map hf t k = None then current_size t + 1 else current_size t)"
proof -
  from avlht_hash[OF hc inv, of k] obtain i where
    i: "hf k (table_size t) = Inr i" "i < length (table t)"
      "slot_at (table t) i = Inr (table t ! i)"
      "avlht_map hf t k = find_avl (table t ! i) k"
      "avl (table t ! i)" "bst (table t ! i)"
    by blast
  have len: "length (table t) = table_size t" using inv by (simp add: avlht_inv_def)
  from insert_avl_ok[OF i(5,6), of k v] obtain root' b where
    r: "insert_avl (table t ! i) k v = Inr (root', b)" "avl root'" "bst root'"
      "keys root' = insert k (keys (table t ! i))" "b \<longleftrightarrow> k \<notin> keys (table t ! i)"
      "length (inorder root') = length (inorder (table t ! i)) + (if b then 1 else 0)"
    by blast
  let ?c = "if b then current_size t + 1 else current_size t"
  let ?t' = "t\<lparr>table := (table t)[i := root'], current_size := ?c\<rparr>"
  have res: "avlht_insert (Suc d) hf t k v = Some (Inr (True, ?t'))"
    using nr i(1,3) r(1) by (simp add: avlht_insert.simps)
  have ks: "\<forall>k'\<in>keys root'. hf k' (table_size t) = Inr i"
    using r(4) i(1,2) inv by (auto simp: avlht_inv_def)
  have c: "?c + nodes (table t ! i) = current_size t + nodes root'"
    using r(6) by (simp add: nodes_def)
  have bound: "?c \<le> table_size t + 1" using nr by simp
  have i': "avlht_inv hf ?t'"
    by (rule avlht_inv_update[OF inv _ r(2,3) ks c bound]) (use i(2) len in simp)
  have m': "avlht_map hf ?t' = (avlht_map hf t)(k \<mapsto> v)"
    by (rule avlht_map_update[OF hc inv i(1)]) (rule find_avl_insert[OF i(5,6) r(1)])
  have bn: "b \<longleftrightarrow> avlht_map hf t k = None"
    using r(5) i(4) find_avl_None_iff[OF i(6), of k] by simp
  have "avlht_inv hf ?t' \<and> table_size ?t' = table_size t \<and>
           avlht_map hf ?t' = (avlht_map hf t)(k \<mapsto> v) \<and>
           current_size ?t' =
             (if avlht_map hf t k = None then current_size t + 1 else current_size t)"
    using i' m' bn by simp
  then show ?thesis using res by blast
qed

lemma avlht_remove_effect:
  assumes hc: "hash_contract hf" and inv: "avlht_inv hf t"
  shows "\<exists>b t'. avlht_remove hf t k = Inr (b, t') \<and> avlht_inv hf t' \<and>
           table_size t' = table_size t \<and> (b \<longleftrightarrow> avlht_map hf t k \<noteq> None) \<and>
           avlht_map hf t' = (avlht_map hf t)(k := None) \<and>
           (b \<longrightarrow> 0 < current_size t \<and> current_size t' = current_size t - 1) \<and>
           (\<not> b \<longrightarrow> t' = t)"
proof -
  from avlht_hash[OF hc inv, of k] obtain i where
    i: "hf k (table_size t) = Inr i" "i < length (table t)"
      "slot_at (table t) i = Inr (table t ! i)"
      "avlht_map hf t k = find_avl (table t ! i) k"
      "avl (table t ! i)" "bst (table t ! i)"
    by blast
  have len: "length (table t) = table_size t"
    and cs: "current_size t = sum_list (map nodes (table t))"
    and bd: "current_size t \<le> table_size t + 1"
    using inv by (simp_all add: avlht_inv_def)
  from remove_avl_ok[OF i(5,6), of k] obtain root' b where
    r: "remove_avl (table t ! i) k = Inr (root', b)" "avl root'" "bst root'"
      "keys root' = keys (table t ! i) - {k}" "b \<longleftrightarrow> k \<in> keys (table t ! i)"
      "length (inorder root') + (if b then 1 else 0) = length (inorder (table t ! i))"
      "\<not> b \<longrightarrow> root' = table t ! i"
    by blast
  let ?c = "if b then decrement (current_size t) else current_size t"
  let ?t' = "t\<lparr>table := (table t)[i := root'], current_size := ?c\<rparr>"
  have res: "avlht_remove hf t k = Inr (b, ?t')"
    using i(1,3) r(1) by (simp add: avlht_remove_def)
  have pos: "b \<longrightarrow> 0 < current_size t"
  proof
    assume b
    then have "length (inorder (table t ! i)) = Suc (length (inorder root'))" using r(6) by simp
    then have "0 < nodes (table t ! i)" unfolding nodes_def by linarith
    moreover have "nodes (table t ! i) \<le> sum_list (map nodes (table t))"
      using i(2) by (simp add: member_le_sum_list)
    ultimately show "0 < current_size t" using cs by simp
  qed
  then have dec: "b \<longrightarrow> decrement (current_size t) = current_size t - 1"
    by (auto simp: decrement_def)
  have ks: "\<forall>k'\<in>keys root'. hf k' (table_size t) = Inr i"
    using r(4) i(2) inv by (auto simp: avlht_inv_def)
  have c: "?c + nodes (table t ! i) = current_size t + nodes root'"
    using r(6) pos dec by (auto simp: nodes_def)
  have bound: "?c \<le> table_size t + 1" using bd dec by auto
  have i': "avlht_inv hf ?t'"
    by (rule avlht_inv_update[OF inv _ r(2,3) ks c bound]) (use i(2) len in simp)
  have m': "avlht_map hf ?t' = (avlht_map hf t)(k := None)"
    by (rule avlht_map_update[OF hc inv i(1)]) (rule find_avl_remove[OF i(5,6) r(1)])
  have bn: "b \<longleftrightarrow> avlht_map hf t k \<noteq> None"
    using r(5) i(4) find_avl_None_iff[OF i(6), of k] by simp
  have same: "\<not> b \<longrightarrow> ?t' = t" using r(7) by simp
  have "avlht_inv hf ?t' \<and>
           table_size ?t' = table_size t \<and> (b \<longleftrightarrow> avlht_map hf t k \<noteq> None) \<and>
           avlht_map hf ?t' = (avlht_map hf t)(k := None) \<and>
           (b \<longrightarrow> 0 < current_size t \<and> current_size ?t' = current_size t - 1) \<and>
           (\<not> b \<longrightarrow> ?t' = t)"
    using i' m' bn pos dec same by simp
  then show ?thesis using res by blast
qed

subsection \<open>Growth of the AVL table\<close>

lemma avlht_insert_all_append:
  "avlht_insert_all d hf (xs @ ys) t =
     (case avlht_insert_all d hf xs t of
        None \<Rightarrow> None
      | Some (Inl f) \<Rightarrow> Some (Inl f)
      | Some (Inr t1) \<Rightarrow> avlht_insert_all d hf ys t1)"
proof (induction xs arbitrary: t)
  case Nil
  then show ?case by simp
next
  case (Cons p xs)
  obtain k v where p: "p = (k, v)" by (cases p)
  show ?case using Cons.IH p
    by (simp split: option.splits sum.splits prod.splits)
qed

lemma collect_eq:
  "collect_and_reinsert d hf node t = avlht_insert_all d hf (preorder node) t"
proof (induction node arbitrary: t)
  case Null
  then show ?case by simp
next
  case (Node k v h l r)
  show ?case using Node.IH
    by (simp add: avlht_insert_all_append split: option.splits sum.splits prod.splits)
qed

lemma resize_loop_eq:
  "avlht_resize_loop d hf roots t = avlht_insert_all d hf (concat (map preorder roots)) t"
proof (induction roots arbitrary: t)
  case Nil
  then show ?case by simp
next
  case (Cons root roots)
  show ?case using Cons.IH
    by (cases "root = Null")
       (simp_all add: collect_eq avlht_insert_all_append split: option.splits sum.splits)
qed

lemma set_preorder: "set (preorder t) = set (inorder t)"
  by (induction t) auto

lemma length_preorder: "length (preorder t) = nodes t"
  by (induction t) (auto simp: nodes_def)

lemma distinct_preorder: "bst t \<Longrightarrow> distinct (map fst (preorder t))"
proof (induction t)
  case Null
  then show ?case by simp
next
  case (Node k v h l r)
  have kl: "\<forall>x\<in>keys l. x < k" and kr: "\<forall>y\<in>keys r. k < y" using Node.prems by simp_all
  have 1: "k \<notin> fst ` set (preorder l)" using kl by (auto simp: set_preorder keys_def)
  have 2: "k \<notin> fst ` set (preorder r)" using kr by (auto simp: set_preorder keys_def)
  have 3: "fst ` set (preorder l) \<inter> fst ` set (preorder r) = {}"
  proof (rule ccontr)
    assume "fst ` set (preorder l) \<inter> fst ` set (preorder r) \<noteq> {}"
    then obtain x where "x \<in> keys l" "x \<in> keys r" by (auto simp: set_preorder keys_def)
    then have "x < k" "k < x" using kl kr by auto
    then show False by simp
  qed
  show ?case using Node 1 2 3 by simp
qed

lemma entries_mem:
  "(p \<in> set (concat (map preorder roots))) = (\<exists>j<length roots. p \<in> set (inorder (roots ! j)))"
proof -
  have "(p \<in> set (concat (map preorder roots))) = (\<exists>x\<in>set roots. p \<in> set (inorder x))"
    by (simp add: set_preorder)
  also have "\<dots> = (\<exists>j<length roots. p \<in> set (inorder (roots ! j)))"
    by (metis in_set_conv_nth)
  finally show ?thesis .
qed

lemma entries_distinct:
  "(\<forall>j<length roots. bst (roots ! j) \<and> (\<forall>k\<in>keys (roots ! j). hf k n = Inr (off + j))) \<Longrightarrow>
   distinct (map fst (concat (map preorder roots)))"
proof (induction roots arbitrary: off)
  case Nil
  then show ?case by simp
next
  case (Cons root roots)
  have "0 < length (root # roots)" by simp
  from Cons.prems[rule_format, OF this]
  have b0: "bst root" and k0: "\<forall>k\<in>keys root. hf k n = Inr off" by simp_all
  have rest: "\<forall>j<length roots. bst (roots ! j) \<and> (\<forall>k\<in>keys (roots ! j). hf k n = Inr (Suc off + j))"
  proof (intro allI impI)
    fix j assume "j < length roots"
    then have "Suc j < length (root # roots)" by simp
    from Cons.prems[rule_format, OF this]
    show "bst (roots ! j) \<and> (\<forall>k\<in>keys (roots ! j). hf k n = Inr (Suc off + j))" by simp
  qed
  have d1: "distinct (map fst (preorder root))" using b0 by (rule distinct_preorder)
  have d2: "distinct (map fst (concat (map preorder roots)))" by (rule Cons.IH[OF rest])
  have dj: "fst ` set (preorder root) \<inter> fst ` set (concat (map preorder roots)) = {}"
  proof (rule ccontr)
    assume "fst ` set (preorder root) \<inter> fst ` set (concat (map preorder roots)) \<noteq> {}"
    then obtain x where "x \<in> fst ` set (preorder root)"
      "x \<in> fst ` set (concat (map preorder roots))" by blast
    then obtain p q where p: "p \<in> set (preorder root)" "x = fst p"
      and q: "q \<in> set (concat (map preorder roots))" "x = fst q" by blast
    have e: "fst p = fst q" using p(2) q(2) by simp
    from q(1) obtain j where j: "j < length roots" "q \<in> set (inorder (roots ! j))"
      unfolding entries_mem by blast
    have "fst p \<in> keys root" using p(1) by (simp add: set_preorder keys_def)
    then have 1: "hf (fst p) n = Inr off" using k0 by simp
    have "fst q \<in> keys (roots ! j)" using j(2) by (simp add: keys_def)
    then have 2: "hf (fst q) n = Inr (Suc off + j)" using rest j(1) by simp
    show False using 1 2 e by simp
  qed
  show ?case using d1 d2 dj by simp
qed

lemma entries_length: "length (concat (map preorder roots)) = sum_list (map nodes roots)"
  by (induction roots) (simp_all add: length_preorder)

lemma avlht_insert_all_effect:
  assumes hc: "hash_contract hf"
  shows "avlht_inv hf t \<Longrightarrow> current_size t + length kvs \<le> table_size t + 1 \<Longrightarrow>
     distinct (map fst kvs) \<Longrightarrow> (\<forall>p\<in>set kvs. avlht_map hf t (fst p) = None) \<Longrightarrow>
     \<exists>t'. avlht_insert_all (Suc d) hf kvs t = Some (Inr t') \<and> avlht_inv hf t' \<and>
          table_size t' = table_size t \<and> current_size t' = current_size t + length kvs \<and>
          (\<forall>k. avlht_map hf t' k = (case map_of kvs k of Some v \<Rightarrow> Some v | None \<Rightarrow> avlht_map hf t k))"
proof (induction kvs arbitrary: t)
  case Nil
  then show ?case by simp
next
  case (Cons p kvs)
  obtain k v where p: "p = (k, v)" by (cases p)
  have nr: "\<not> table_size t < current_size t" using Cons.prems(2) by simp
  have absent: "avlht_map hf t k = None" using Cons.prems(4) p by simp
  from avlht_insert_stable[OF hc Cons.prems(1) nr, of d k v] absent obtain t1 where
    t1: "avlht_insert (Suc d) hf t k v = Some (Inr (True, t1))" "avlht_inv hf t1"
      "table_size t1 = table_size t" "avlht_map hf t1 = (avlht_map hf t)(k \<mapsto> v)"
      "current_size t1 = current_size t + 1"
    by auto
  have b1: "current_size t1 + length kvs \<le> table_size t1 + 1" using Cons.prems(2) t1 by simp
  have d1: "distinct (map fst kvs)" and kn: "k \<notin> fst ` set kvs" using Cons.prems(3) p by simp_all
  have a1: "\<forall>q\<in>set kvs. avlht_map hf t1 (fst q) = None"
    using Cons.prems(4) t1(4) kn by auto
  from Cons.IH[OF t1(2) b1 d1 a1] obtain t' where
    t': "avlht_insert_all (Suc d) hf kvs t1 = Some (Inr t')" "avlht_inv hf t'"
      "table_size t' = table_size t1" "current_size t' = current_size t1 + length kvs"
      "\<forall>k. avlht_map hf t' k = (case map_of kvs k of Some v \<Rightarrow> Some v | None \<Rightarrow> avlht_map hf t1 k)"
    by blast
  have res: "avlht_insert_all (Suc d) hf (p # kvs) t = Some (Inr t')"
    using p t1(1) t'(1) by simp
  have mk: "map_of kvs k = None" using kn by (simp add: map_of_eq_None_iff)
  have mp: "\<forall>k'. avlht_map hf t' k' =
      (case map_of (p # kvs) k' of Some v \<Rightarrow> Some v | None \<Rightarrow> avlht_map hf t k')"
  proof
    fix k'
    show "avlht_map hf t' k' =
      (case map_of (p # kvs) k' of Some v \<Rightarrow> Some v | None \<Rightarrow> avlht_map hf t k')"
    proof (cases "k' = k")
      case True
      have "avlht_map hf t1 k = Some v" using t1(4) by simp
      then show ?thesis using t'(5) mk True p by simp
    next
      case False
      have "avlht_map hf t1 k' = avlht_map hf t k'" using t1(4) False by simp
      then show ?thesis using t'(5) False p by (simp split: option.splits)
    qed
  qed
  show ?case using res t'(2,3,4) t1(3,5) mp by simp
qed

lemma entries_map:
  assumes hc: "hash_contract hf" and inv: "avlht_inv hf t"
  shows "distinct (map fst (concat (map preorder (table t))))"
    and "map_of (concat (map preorder (table t))) k = avlht_map hf t k"
proof -
  have bk: "\<forall>j<length (table t). bst (table t ! j) \<and>
      (\<forall>k\<in>keys (table t ! j). hf k (table_size t) = Inr j)"
    using inv by (simp add: avlht_inv_def)
  show d: "distinct (map fst (concat (map preorder (table t))))"
    by (rule entries_distinct[where off = 0 and hf = hf and n = "table_size t"]) (use bk in simp)
  from avlht_hash[OF hc inv, of k] obtain i where
    i: "hf k (table_size t) = Inr i" "i < length (table t)"
      "avlht_map hf t k = find_avl (table t ! i) k" "bst (table t ! i)"
    by blast
  show "map_of (concat (map preorder (table t))) k = avlht_map hf t k"
  proof (rule option_eqI)
    fix v
    have "((k, v) \<in> set (concat (map preorder (table t)))) = ((k, v) \<in> set (inorder (table t ! i)))"
    proof
      assume "(k, v) \<in> set (concat (map preorder (table t)))"
      then obtain j where j: "j < length (table t)" "(k, v) \<in> set (inorder (table t ! j))"
        unfolding entries_mem by blast
      then have "k \<in> keys (table t ! j)" by (auto intro: in_keys)
      then have "hf k (table_size t) = Inr j" using bk j(1) by simp
      then have "j = i" using i(1) by simp
      then show "(k, v) \<in> set (inorder (table t ! i))" using j(2) by simp
    next
      assume "(k, v) \<in> set (inorder (table t ! i))"
      then show "(k, v) \<in> set (concat (map preorder (table t)))"
        unfolding entries_mem using i(2) by blast
    qed
    then show "(map_of (concat (map preorder (table t))) k = Some v) = (avlht_map hf t k = Some v)"
      using d i(3) find_avl_iff[OF i(4), of k v] by simp
  qed
qed

lemma avlht_resize_effect:
  assumes hc: "hash_contract hf" and inv: "avlht_inv hf t"
  shows "\<exists>t'. avlht_resize (Suc d) hf t = Some (Inr t') \<and> avlht_inv hf t' \<and>
           table_size t' = 2 * table_size t \<and> current_size t' = current_size t \<and>
           avlht_map hf t' = avlht_map hf t"
proof -
  let ?f = "t\<lparr>table_size := 2 * table_size t,
          table := replicate (2 * table_size t) Null,
          current_size := 0\<rparr>"
  let ?kvs = "concat (map preorder (table t))"
  have n0: "0 < table_size t" and cs: "current_size t = sum_list (map nodes (table t))"
    and bd: "current_size t \<le> table_size t + 1"
    using inv by (simp_all add: avlht_inv_def)
  have z: "sum_list (map nodes (replicate (2 * table_size t) Null)) = 0"
    by (simp add: nodes_def sum_list_replicate)
  have fi: "avlht_inv hf ?f" using n0 z by (simp add: avlht_inv_def)
  have fm: "\<And>k. avlht_map hf ?f k = None"
    by (simp add: avlht_map_def split: sum.splits)
  have ln: "length ?kvs = current_size t" using cs by (simp add: entries_length)
  have fb: "current_size ?f + length ?kvs \<le> table_size ?f + 1" using ln bd by simp
  have fa: "\<forall>p\<in>set ?kvs. avlht_map hf ?f (fst p) = None" using fm by blast
  from avlht_insert_all_effect[OF hc fi fb entries_map(1)[OF hc inv] fa, of d] obtain t' where
    t': "avlht_insert_all (Suc d) hf ?kvs ?f = Some (Inr t')" "avlht_inv hf t'"
      "table_size t' = table_size ?f" "current_size t' = current_size ?f + length ?kvs"
      "\<forall>k. avlht_map hf t' k = (case map_of ?kvs k of Some v \<Rightarrow> Some v | None \<Rightarrow> avlht_map hf ?f k)"
    by blast
  have "avlht_map hf t' = avlht_map hf t"
  proof
    fix k
    show "avlht_map hf t' k = avlht_map hf t k"
      using t'(5) fm[of k] entries_map(2)[OF hc inv, of k] by (simp split: option.splits)
  qed
  moreover have "avlht_resize (Suc d) hf t = Some (Inr t')"
    using t'(1) by (simp add: resize_loop_eq)
  ultimately show ?thesis using t'(2,3,4) ln by simp
qed

lemma avlht_insert_grow:
  assumes "table_size t < current_size t" "avlht_resize (Suc d) hf t = Some (Inr t1)"
    "\<not> table_size t1 < current_size t1"
  shows "avlht_insert (Suc (Suc d)) hf t k v = avlht_insert (Suc d) hf t1 k v"
  using assms by (simp add: avlht_insert.simps del: avlht_resize.simps)

lemma avlht_insert_effect:
  assumes hc: "hash_contract hf" and inv: "avlht_inv hf t"
  shows "\<exists>t'. avlht_insert (Suc (Suc d)) hf t k v = Some (Inr (True, t')) \<and> avlht_inv hf t' \<and>
           table_size t' = (if table_size t < current_size t then 2 * table_size t else table_size t) \<and>
           avlht_map hf t' = (avlht_map hf t)(k \<mapsto> v) \<and>
           current_size t' =
             (if avlht_map hf t k = None then current_size t + 1 else current_size t)"
proof (cases "table_size t < current_size t")
  case False
  from avlht_insert_stable[OF hc inv False, of "Suc d" k v] False show ?thesis by simp
next
  case True
  have n0: "0 < table_size t" and bd: "current_size t \<le> table_size t + 1"
    using inv by (simp_all add: avlht_inv_def)
  from avlht_resize_effect[OF hc inv, of d] obtain t1 where
    t1: "avlht_resize (Suc d) hf t = Some (Inr t1)" "avlht_inv hf t1"
      "table_size t1 = 2 * table_size t" "current_size t1 = current_size t"
      "avlht_map hf t1 = avlht_map hf t"
    by blast
  have st: "\<not> table_size t1 < current_size t1" using t1(3,4) n0 bd by simp
  have eq: "avlht_insert (Suc (Suc d)) hf t k v = avlht_insert (Suc d) hf t1 k v"
    by (rule avlht_insert_grow[OF True t1(1) st])
  from avlht_insert_stable[OF hc t1(2) st, of d k v] obtain t' where
    r: "avlht_insert (Suc d) hf t1 k v = Some (Inr (True, t'))" "avlht_inv hf t'"
      "table_size t' = table_size t1" "avlht_map hf t' = (avlht_map hf t1)(k \<mapsto> v)"
      "current_size t' =
             (if avlht_map hf t1 k = None then current_size t1 + 1 else current_size t1)"
    by blast
  have "avlht_inv hf t' \<and>
           table_size t' = (if table_size t < current_size t then 2 * table_size t else table_size t) \<and>
           avlht_map hf t' = (avlht_map hf t)(k \<mapsto> v) \<and>
           current_size t' =
             (if avlht_map hf t k = None then current_size t + 1 else current_size t)"
    using r t1 True by simp
  moreover have "avlht_insert (Suc (Suc d)) hf t k v = Some (Inr (True, t'))"
    using eq r(1) by simp
  ultimately show ?thesis by blast
qed

lemma avlht_inv_new:
  assumes "0 < n"
  shows "avlht_inv hf (avlht_new n)" and "avlht_map hf (avlht_new n) = Map.empty"
proof -
  have z: "sum_list (map nodes (replicate n Null)) = 0"
    by (simp add: nodes_def sum_list_replicate)
  show "avlht_inv hf (avlht_new n)" using assms z by (simp add: avlht_inv_def avlht_new_def)
  show "avlht_map hf (avlht_new n) = Map.empty"
    by (rule ext) (simp add: avlht_map_def avlht_new_def split: sum.splits)
qed

lemma avlht_inv_clear:
  assumes "avlht_inv hf t"
  shows "avlht_inv hf (avlht_clear t)" and "avlht_map hf (avlht_clear t) = Map.empty"
    and "table_size (avlht_clear t) = table_size t" and "current_size (avlht_clear t) = 0"
proof -
  have z: "sum_list (map nodes (map (\<lambda>root. Null) (table t))) = 0"
    by (induction "table t") (simp_all add: nodes_def sum_list_0 comp_def)
  show "avlht_inv hf (avlht_clear t)" using assms z by (simp add: avlht_inv_def avlht_clear_def)
  show "avlht_map hf (avlht_clear t) = Map.empty"
    by (rule ext) (simp add: avlht_map_def avlht_clear_def split: sum.splits)
  show "table_size (avlht_clear t) = table_size t" by (simp add: avlht_clear_def)
  show "current_size (avlht_clear t) = 0" by (simp add: avlht_clear_def)
qed

declare oa_insert.simps [simp del]

lemma depth2: "2 \<le> depth \<Longrightarrow> \<exists>d. depth = Suc (Suc d)"
  by (metis Suc_le_D numeral_2_eq_2 Suc_le_mono)

subsection \<open>Sequences of requests on the AVL table\<close>

lemma avlht_call_inv:
  assumes hc: "hash_contract hf" and inv: "avlht_inv hf t"
  shows "\<exists>r t'. avlht_call (Suc (Suc d)) hf rq t = Some (Inr (r, t')) \<and> avlht_inv hf t'"
proof (cases rq)
  case (Insert k v)
  from avlht_insert_effect[OF hc inv, of d k v] obtain t' where
    "avlht_insert (Suc (Suc d)) hf t k v = Some (Inr (True, t'))" "avlht_inv hf t'" by blast
  then show ?thesis using Insert by simp
next
  case (Remove k)
  from avlht_remove_effect[OF hc inv, of k] obtain b t' where
    "avlht_remove hf t k = Inr (b, t')" "avlht_inv hf t'" by blast
  then show ?thesis using Remove by simp
next
  case (Find k)
  then show ?thesis using avlht_find_map[OF hc inv, of k] inv by simp
next
  case Clear
  then show ?thesis using avlht_inv_clear(1)[OF inv] by simp
qed

lemma avlht_run_inv:
  assumes hc: "hash_contract hf"
  shows "avlht_inv hf t \<Longrightarrow>
    \<exists>rs t'. avlht_run (Suc (Suc d)) hf rqs t = Some (Inr (rs, t')) \<and> avlht_inv hf t'"
proof (induction rqs arbitrary: t)
  case Nil
  then show ?case by simp
next
  case (Cons rq rqs)
  from avlht_call_inv[OF hc Cons.prems, of d rq] obtain r t1 where
    1: "avlht_call (Suc (Suc d)) hf rq t = Some (Inr (r, t1))" "avlht_inv hf t1" by blast
  from Cons.IH[OF 1(2)] obtain rs t' where
    2: "avlht_run (Suc (Suc d)) hf rqs t1 = Some (Inr (rs, t'))" "avlht_inv hf t'" by blast
  show ?case using 1 2 by (simp del: avlht_call.simps)
qed

lemma avlht_reachable:
  assumes "hash_contract hf" "0 < n" "2 \<le> depth"
  shows "\<exists>rs t. avlht_run depth hf rqs (avlht_new n) = Some (Inr (rs, t)) \<and> avlht_inv hf t"
proof -
  from depth2[OF assms(3)] obtain d where d: "depth = Suc (Suc d)" by blast
  show ?thesis
    using avlht_run_inv[OF assms(1) avlht_inv_new(1)[OF assms(2)], of d rqs] d by simp
qed

lemma oa_reachable:
  assumes "hash_contract hf" "0 < n" "2 \<le> depth"
  shows "\<exists>rs t. oa_run depth hf rqs (oa_new n) = Some (Inr (rs, t)) \<and> oa_inv hf t"
proof -
  from depth2[OF assms(3)] obtain d where d: "depth = Suc (Suc d)" by blast
  show ?thesis
    using oa_run_inv[OF assms(1) oa_inv_new(1)[OF assms(2)], of d rqs] d by simp
qed

lemma avlht_present_iff:
  assumes hc: "hash_contract hf" and inv: "avlht_inv hf t"
  shows "avlht_present t k \<longleftrightarrow> avlht_map hf t k \<noteq> None"
proof -
  from avlht_hash[OF hc inv, of k] obtain i where
    i: "hf k (table_size t) = Inr i" "i < length (table t)"
      "avlht_map hf t k = find_avl (table t ! i) k" "bst (table t ! i)"
    by blast
  have m: "avlht_map hf t k \<noteq> None \<longleftrightarrow> k \<in> keys (table t ! i)"
    using i(3) find_avl_None_iff[OF i(4), of k] by simp
  show ?thesis
  proof
    assume "avlht_present t k"
    then obtain root where r: "root \<in> set (table t)" "k \<in> keys root"
      by (auto simp: avlht_present_def keys_def)
    then obtain j where j: "j < length (table t)" "table t ! j = root"
      by (auto simp: in_set_conv_nth)
    then have "hf k (table_size t) = Inr j" using inv r(2) by (simp add: avlht_inv_def)
    then have "j = i" using i(1) by simp
    then show "avlht_map hf t k \<noteq> None" using m j r(2) by simp
  next
    assume "avlht_map hf t k \<noteq> None"
    then have "k \<in> keys (table t ! i)" using m by simp
    then show "avlht_present t k"
      using i(2) nth_mem[OF i(2)] by (auto simp: avlht_present_def keys_def)
  qed
qed

subsection \<open>A key stays findable\<close>

lemma oa_run_keeps:
  assumes hc: "hash_contract hf"
  shows "oa_inv hf t \<Longrightarrow> oa_map t k = Some v \<Longrightarrow>
     \<forall>rq\<in>set rqs. rq \<noteq> Remove k \<and> rq \<noteq> Clear \<Longrightarrow>
     \<exists>rs t'. oa_run (Suc (Suc d)) hf rqs t = Some (Inr (rs, t')) \<and> oa_inv hf t' \<and>
        oa_map t' k = Some (latest k v rqs)"
proof (induction rqs arbitrary: t v)
  case Nil
  then show ?case by simp
next
  case (Cons rq rqs)
  have rest: "\<forall>rq\<in>set rqs. rq \<noteq> Remove k \<and> rq \<noteq> Clear" using Cons.prems(3) by simp
  have "\<exists>r t1. oa_call (Suc (Suc d)) hf rq t = Some (Inr (r, t1)) \<and> oa_inv hf t1 \<and>
      oa_map t1 k = Some (latest k v [rq])"
  proof (cases rq)
    case (Insert k' v')
    from oa_insert_effect[OF hc Cons.prems(1), of d k' v'] obtain b t1 where
      1: "oa_insert (Suc (Suc d)) hf t k' v' = Some (Inr (b, t1))" "oa_inv hf t1"
        "b \<longrightarrow> oa_map t1 = (oa_map t)(k' \<mapsto> v')" "\<not> b \<longrightarrow> t1 = t"
        "\<not> b \<longrightarrow> oa_map t k' = None"
      by blast
    have "oa_map t1 k = Some (if k' = k then v' else v)"
      using 1(3,4,5) Cons.prems(2) by (cases b) auto
    then show ?thesis using 1(1,2) Insert by simp
  next
    case (Remove k')
    then have ne: "k' \<noteq> k" using Cons.prems(3) by auto
    from oa_remove_effect[OF hc Cons.prems(1), of k'] obtain b t1 where
      1: "oa_remove hf t k' = Some (Inr (b, t1))" "oa_inv hf t1"
        "oa_map t1 = (oa_map t)(k' := None)"
      by blast
    then show ?thesis using Remove ne Cons.prems(2) by simp
  next
    case (Find k')
    then show ?thesis using oa_find_map[OF hc Cons.prems(1), of k'] Cons.prems(1,2) by simp
  next
    case Clear
    then show ?thesis using Cons.prems(3) by simp
  qed
  then obtain r t1 where
    1: "oa_call (Suc (Suc d)) hf rq t = Some (Inr (r, t1))" "oa_inv hf t1"
      "oa_map t1 k = Some (latest k v [rq])" by blast
  from Cons.IH[OF 1(2,3) rest] obtain rs t' where
    2: "oa_run (Suc (Suc d)) hf rqs t1 = Some (Inr (rs, t'))" "oa_inv hf t'"
      "oa_map t' k = Some (latest k (latest k v [rq]) rqs)" by blast
  have l: "latest k (latest k v [rq]) rqs = latest k v (rq # rqs)" by (cases rq) simp_all
  show ?case using 1(1) 2 l by (simp del: oa_call.simps)
qed

lemma avlht_run_keeps:
  assumes hc: "hash_contract hf"
  shows "avlht_inv hf t \<Longrightarrow> avlht_map hf t k = Some v \<Longrightarrow>
     \<forall>rq\<in>set rqs. rq \<noteq> Remove k \<and> rq \<noteq> Clear \<Longrightarrow>
     \<exists>rs t'. avlht_run (Suc (Suc d)) hf rqs t = Some (Inr (rs, t')) \<and> avlht_inv hf t' \<and>
        avlht_map hf t' k = Some (latest k v rqs)"
proof (induction rqs arbitrary: t v)
  case Nil
  then show ?case by simp
next
  case (Cons rq rqs)
  have rest: "\<forall>rq\<in>set rqs. rq \<noteq> Remove k \<and> rq \<noteq> Clear" using Cons.prems(3) by simp
  have "\<exists>r t1. avlht_call (Suc (Suc d)) hf rq t = Some (Inr (r, t1)) \<and> avlht_inv hf t1 \<and>
      avlht_map hf t1 k = Some (latest k v [rq])"
  proof (cases rq)
    case (Insert k' v')
    from avlht_insert_effect[OF hc Cons.prems(1), of d k' v'] obtain t1 where
      1: "avlht_insert (Suc (Suc d)) hf t k' v' = Some (Inr (True, t1))" "avlht_inv hf t1"
        "avlht_map hf t1 = (avlht_map hf t)(k' \<mapsto> v')"
      by blast
    have "avlht_map hf t1 k = Some (if k' = k then v' else v)"
      using 1(3) Cons.prems(2) by auto
    then show ?thesis using 1(1,2) Insert by simp
  next
    case (Remove k')
    then have ne: "k' \<noteq> k" using Cons.prems(3) by auto
    from avlht_remove_effect[OF hc Cons.prems(1), of k'] obtain b t1 where
      1: "avlht_remove hf t k' = Inr (b, t1)" "avlht_inv hf t1"
        "avlht_map hf t1 = (avlht_map hf t)(k' := None)"
      by blast
    then show ?thesis using Remove ne Cons.prems(2) by simp
  next
    case (Find k')
    then show ?thesis using avlht_find_map[OF hc Cons.prems(1), of k'] Cons.prems(1,2) by simp
  next
    case Clear
    then show ?thesis using Cons.prems(3) by simp
  qed
  then obtain r t1 where
    1: "avlht_call (Suc (Suc d)) hf rq t = Some (Inr (r, t1))" "avlht_inv hf t1"
      "avlht_map hf t1 k = Some (latest k v [rq])" by blast
  from Cons.IH[OF 1(2,3) rest] obtain rs t' where
    2: "avlht_run (Suc (Suc d)) hf rqs t1 = Some (Inr (rs, t'))" "avlht_inv hf t'"
      "avlht_map hf t' k = Some (latest k (latest k v [rq]) rqs)" by blast
  have l: "latest k (latest k v [rq]) rqs = latest k v (rq # rqs)" by (cases rq) simp_all
  show ?case using 1(1) 2 l by (simp del: avlht_call.simps)
qed

subsection \<open>The hash functions, and runs on small tables\<close>

lemma hash_function_contract: "hash_contract hash_function"
proof -
  have "\<And>k n. 0 < n \<Longrightarrow> \<exists>i<n. hash_function k n = Inr i"
    by (simp add: hash_function_def Let_def)
  moreover have "\<And>k. hash_function k 0 = Inl DivisionByZero"
    by (simp add: hash_function_def Let_def)
  ultimately show ?thesis unfolding hash_contract_def by blast
qed

lemma hash_function_std_contract: "hash_contract (hash_function_std std_hash)"
  by (simp add: hash_contract_def hash_function_std_def)

lemma probe_general:
  assumes len: "length tbl = n" and h: "h < n"
  shows "\<exists>j\<le>n. probe_loop tbl n k h h = Some (Inr ((h + j) mod n)) \<and>
           (\<forall>m<j. skip k (tbl ! ((h + m) mod n))) \<and>
           (j < n \<longrightarrow> \<not> skip k (tbl ! ((h + j) mod n)))"
proof (cases "\<exists>m<n. \<not> skip k (tbl ! ((h + m) mod n))")
  case True
  define P where "P = (\<lambda>m. m < n \<and> \<not> skip k (tbl ! ((h + m) mod n)))"
  have exP: "\<exists>m. P m" using True unfolding P_def by blast
  define j where "j = (LEAST m. P m)"
  have Pj: "P j" unfolding j_def using exP by (rule LeastI_ex)
  have jP: "j < n" "\<not> skip k (tbl ! ((h + j) mod n))" using Pj unfolding P_def by simp_all
  have jL: "\<forall>m. 0 \<le> m \<and> m < j \<longrightarrow> skip k (tbl ! ((h + m) mod n))"
  proof (intro allI impI)
    fix m assume "0 \<le> m \<and> m < j"
    then have a: "m < j" by simp
    then have "\<not> P m" unfolding j_def by (rule not_less_Least)
    moreover have "m < n" using a jP(1) by simp
    ultimately show "skip k (tbl ! ((h + m) mod n))" unfolding P_def by simp
  qed
  have "probe_loop tbl n k h ((h + 0) mod n) = Some (Inr ((h + j) mod n))"
    by (rule probe_loop_stop[OF len h jP(1) _ jL jP(2)]) simp
  then have "probe_loop tbl n k h h = Some (Inr ((h + j) mod n))" using h by simp
  then show ?thesis using jP jL by (intro exI[of _ j]) simp
next
  case False
  then have all: "\<forall>i. 0 \<le> i \<and> i < n \<longrightarrow> skip k (tbl ! ((h + i) mod n))" by blast
  have n0: "0 < n" using h by simp
  have "probe_loop tbl n k h ((h + 0) mod n) = Some (Inr h)"
    by (rule probe_loop_wrap[OF len h n0 all])
  then have "probe_loop tbl n k h h = Some (Inr ((h + n) mod n))" using h by simp
  then show ?thesis using all by (intro exI[of _ n]) simp
qed

lemma avl_balanced: "avl t \<Longrightarrow> balanced t \<and> get_height t = height t"
  by (induction t) auto

lemma hash_mod_1: "hash_function k (Suc 0) = Inr 0"
  by (simp add: hash_function_def Let_def)

lemma oa_run_example:
  "oa_run (Suc (Suc 0)) hash_function [Insert 1 10] (oa_new (Suc 0)) =
     Some (Inr ([Flag True],
       \<lparr>table = [\<lparr>key = 1, val = 10, state = OCCUPIED\<rparr>], table_size = Suc 0,
        current_size = Suc 0\<rparr>))"
  by (simp add: oa_new_def oa_insert.simps probe_def probe_loop.simps slot_at_def hash_mod_1)

lemma avlht_run_example:
  "avlht_run (Suc (Suc 0)) hash_function [Insert 1 10, Insert 2 20] (avlht_new (Suc 0)) =
     Some (Inr ([Flag True, Flag True],
       \<lparr>table = [Node 1 10 2 Null (Node 2 20 1 Null Null)], table_size = Suc 0,
        current_size = Suc (Suc 0)\<rparr>))"
  by (simp add: avlht_new_def avlht_insert.simps slot_at_def hash_mod_1)

declare oa_resize.simps [simp del] avlht_resize.simps [simp del]

lemma oa_insert_only:
  assumes hc: "hash_contract hf"
  shows "oa_inv hf t \<Longrightarrow> \<forall>e\<in>set (table t). state e \<noteq> DELETED \<Longrightarrow>
     distinct (map fst kvs) \<Longrightarrow> \<forall>p\<in>set kvs. oa_map t (fst p) = None \<Longrightarrow>
     \<exists>rs t'. oa_run (Suc (Suc d)) hf (map (\<lambda>(k, v). Insert k v) kvs) t = Some (Inr (rs, t')) \<and>
        (\<forall>r\<in>set rs. r = Flag True) \<and> oa_inv hf t' \<and>
        current_size t' = current_size t + length kvs \<and>
        (\<forall>k. oa_map t' k = (case map_of kvs k of Some v \<Rightarrow> Some v | None \<Rightarrow> oa_map t k))"
proof (induction kvs arbitrary: t)
  case Nil
  then show ?case by simp
next
  case (Cons p kvs)
  obtain k v where p: "p = (k, v)" by (cases p)
  have absent: "oa_map t k = None" using Cons.prems(4) p by simp
  from oa_insert_effect[OF hc Cons.prems(1), of d k v] obtain b t1 where
    i: "oa_insert (Suc (Suc d)) hf t k v = Some (Inr (b, t1))" "oa_inv hf t1"
      "b \<longrightarrow> oa_map t1 = (oa_map t)(k \<mapsto> v) \<and>
         current_size t1 = (if oa_map t k = None then current_size t + 1 else current_size t)"
      "\<not> b \<longleftrightarrow> \<not> table_size t < 2 * current_size t \<and> oa_map t k = None \<and>
         (\<forall>e\<in>set (table t). state e \<noteq> EMPTY) \<and>
         (\<exists>h. hf k (table_size t) = Inr h \<and> state (table t ! h) = OCCUPIED)"
      "(\<forall>e\<in>set (table t). state e \<noteq> DELETED) \<longrightarrow> (\<forall>e\<in>set (table t1). state e \<noteq> DELETED)"
    by blast
  have b: b
  proof (rule ccontr)
    assume "\<not> b"
    then have nt: "\<not> table_size t < 2 * current_size t"
      and ne: "\<forall>e\<in>set (table t). state e \<noteq> EMPTY" using i(4) by blast+
    from nt have "2 * current_size t \<le> table_size t" by simp
    from has_empty[OF Cons.prems(1) this Cons.prems(2)] ne show False by blast
  qed
  have m1: "oa_map t1 = (oa_map t)(k \<mapsto> v)" and c1: "current_size t1 = current_size t + 1"
    using i(3) b absent by simp_all
  have nd1: "\<forall>e\<in>set (table t1). state e \<noteq> DELETED" using i(5) Cons.prems(2) by simp
  have d1: "distinct (map fst kvs)" and kn: "k \<notin> fst ` set kvs" using Cons.prems(3) p by simp_all
  have a1: "\<forall>q\<in>set kvs. oa_map t1 (fst q) = None" using Cons.prems(4) m1 kn by auto
  from Cons.IH[OF i(2) nd1 d1 a1] obtain rs t' where
    r: "oa_run (Suc (Suc d)) hf (map (\<lambda>(k, v). Insert k v) kvs) t1 = Some (Inr (rs, t'))"
      "\<forall>r\<in>set rs. r = Flag True" "oa_inv hf t'"
      "current_size t' = current_size t1 + length kvs"
      "\<forall>k. oa_map t' k = (case map_of kvs k of Some v \<Rightarrow> Some v | None \<Rightarrow> oa_map t1 k)"
    by blast
  have res: "oa_run (Suc (Suc d)) hf (map (\<lambda>(k, v). Insert k v) (p # kvs)) t =
      Some (Inr (Flag True # rs, t'))"
    using p i(1) b r(1) by simp
  have mk: "map_of kvs k = None" using kn by (simp add: map_of_eq_None_iff)
  have mp: "\<forall>k'. oa_map t' k' =
      (case map_of (p # kvs) k' of Some v \<Rightarrow> Some v | None \<Rightarrow> oa_map t k')"
  proof
    fix k'
    show "oa_map t' k' = (case map_of (p # kvs) k' of Some v \<Rightarrow> Some v | None \<Rightarrow> oa_map t k')"
    proof (cases "k' = k")
      case True
      have "oa_map t1 k = Some v" using m1 by simp
      then show ?thesis using r(5) mk True p by simp
    next
      case False
      have "oa_map t1 k' = oa_map t k'" using m1 False by simp
      then show ?thesis using r(5) False p by (simp split: option.splits)
    qed
  qed
  have "(\<forall>r\<in>set (Flag True # rs). r = Flag True) \<and> oa_inv hf t' \<and>
        current_size t' = current_size t + length (p # kvs) \<and>
        (\<forall>k. oa_map t' k = (case map_of (p # kvs) k of Some v \<Rightarrow> Some v | None \<Rightarrow> oa_map t k))"
    using r(2,3,4) c1 mp by simp
  then show ?case using res by blast
qed

lemma avlht_insert_only:
  assumes hc: "hash_contract hf"
  shows "avlht_inv hf t \<Longrightarrow> distinct (map fst kvs) \<Longrightarrow>
     \<forall>p\<in>set kvs. avlht_map hf t (fst p) = None \<Longrightarrow>
     \<exists>rs t'. avlht_run (Suc (Suc d)) hf (map (\<lambda>(k, v). Insert k v) kvs) t = Some (Inr (rs, t')) \<and>
        (\<forall>r\<in>set rs. r = Flag True) \<and> avlht_inv hf t' \<and>
        current_size t' = current_size t + length kvs \<and>
        (\<forall>k. avlht_map hf t' k =
           (case map_of kvs k of Some v \<Rightarrow> Some v | None \<Rightarrow> avlht_map hf t k))"
proof (induction kvs arbitrary: t)
  case Nil
  then show ?case by simp
next
  case (Cons p kvs)
  obtain k v where p: "p = (k, v)" by (cases p)
  have absent: "avlht_map hf t k = None" using Cons.prems(3) p by simp
  from avlht_insert_effect[OF hc Cons.prems(1), of d k v] absent obtain t1 where
    i: "avlht_insert (Suc (Suc d)) hf t k v = Some (Inr (True, t1))" "avlht_inv hf t1"
      "avlht_map hf t1 = (avlht_map hf t)(k \<mapsto> v)" "current_size t1 = current_size t + 1"
    by auto
  have d1: "distinct (map fst kvs)" and kn: "k \<notin> fst ` set kvs" using Cons.prems(2) p by simp_all
  have a1: "\<forall>q\<in>set kvs. avlht_map hf t1 (fst q) = None" using Cons.prems(3) i(3) kn by auto
  from Cons.IH[OF i(2) d1 a1] obtain rs t' where
    r: "avlht_run (Suc (Suc d)) hf (map (\<lambda>(k, v). Insert k v) kvs) t1 = Some (Inr (rs, t'))"
      "\<forall>r\<in>set rs. r = Flag True" "avlht_inv hf t'"
      "current_size t' = current_size t1 + length kvs"
      "\<forall>k. avlht_map hf t' k =
         (case map_of kvs k of Some v \<Rightarrow> Some v | None \<Rightarrow> avlht_map hf t1 k)"
    by blast
  have res: "avlht_run (Suc (Suc d)) hf (map (\<lambda>(k, v). Insert k v) (p # kvs)) t =
      Some (Inr (Flag True # rs, t'))"
    using p i(1) r(1) by simp
  have mk: "map_of kvs k = None" using kn by (simp add: map_of_eq_None_iff)
  have mp: "\<forall>k'. avlht_map hf t' k' =
      (case map_of (p # kvs) k' of Some v \<Rightarrow> Some v | None \<Rightarrow> avlht_map hf t k')"
  proof
    fix k'
    show "avlht_map hf t' k' =
      (case map_of (p # kvs) k' of Some v \<Rightarrow> Some v | None \<Rightarrow> avlht_map hf t k')"
    proof (cases "k' = k")
      case True
      have "avlht_map hf t1 k = Some v" using i(3) by simp
      then show ?thesis using r(5) mk True p by simp
    next
      case False
      have "avlht_map hf t1 k' = avlht_map hf t k'" using i(3) False by simp
      then show ?thesis using r(5) False p by (simp split: option.splits)
    qed
  qed
  have "(\<forall>r\<in>set (Flag True # rs). r = Flag True) \<and> avlht_inv hf t' \<and>
        current_size t' = current_size t + length (p # kvs) \<and>
        (\<forall>k. avlht_map hf t' k =
           (case map_of (p # kvs) k of Some v \<Rightarrow> Some v | None \<Rightarrow> avlht_map hf t k))"
    using r(2,3,4) i(4) mp by simp
  then show ?case using res by blast
qed

lemma oa_find_example:
  "oa_find hash_function
     \<lparr>table = [\<lparr>key = 1, val = 10, state = OCCUPIED\<rparr>], table_size = Suc 0,
      current_size = Suc 0\<rparr> 1 = Some (Inr (Some 10))"
  by (simp add: oa_find_def probe_def probe_loop.simps slot_at_def hash_mod_1)

lemma avlht_find_example:
  "avlht_find hash_function
     \<lparr>table = [Node 1 10 2 Null (Node 2 20 1 Null Null)], table_size = Suc 0,
      current_size = Suc (Suc 0)\<rparr> 2 = Inr (Some 20)"
  by (simp add: avlht_find_def slot_at_def hash_mod_1)

lemma hash_mod_2:
  "hash_function 0 2 = Inr 0" "hash_function 1 2 = Inr 1" "hash_function 3 2 = Inr 1"
  by (simp_all add: hash_function_def Let_def)

lemma hash_mod_2_key_2:
  "hash_function 2 2 = Inr 0"
  by (simp add: hash_function_def Let_def)

lemma oa_insert_example:
  "oa_insert (Suc (Suc 0)) hash_function
     \<lparr>table = [\<lparr>key = 1, val = 10, state = OCCUPIED\<rparr>], table_size = Suc 0,
      current_size = Suc 0\<rparr> 2 20 =
   Some (Inr (True,
     \<lparr>table = [\<lparr>key = 2, val = 20, state = OCCUPIED\<rparr>, \<lparr>key = 1, val = 10, state = OCCUPIED\<rparr>],
      table_size = Suc (Suc 0), current_size = Suc (Suc 0)\<rparr>))"
  by (simp add: oa_insert.simps oa_resize.simps probe_def probe_loop.simps slot_at_def
      hash_mod_2[unfolded numeral_2_eq_2] hash_mod_2_key_2[unfolded numeral_2_eq_2] oa_new_def
      numeral_2_eq_2)

lemma oa_run_example_deleted:
  "oa_run (Suc (Suc 0)) hash_function [Insert 1 10, Insert 3 30, Remove 1]
     (oa_new (Suc (Suc 0))) =
   Some (Inr ([Flag True, Flag True, Flag True],
     \<lparr>table = [\<lparr>key = 3, val = 30, state = OCCUPIED\<rparr>, \<lparr>key = 1, val = 10, state = DELETED\<rparr>],
      table_size = Suc (Suc 0), current_size = Suc 0\<rparr>))"
  by (simp add: oa_new_def oa_insert.simps oa_remove_def decrement_def probe_def
      probe_loop.simps slot_at_def hash_mod_2[unfolded numeral_2_eq_2])

section \<open>The claims\<close>

text \<open>
  C1. On a table reached from a fresh one of positive capacity, when \<open>insert\<close> of a key
  returns true (for the AVL table it always does) and the requests that follow contain
  neither a \<open>remove\<close> of that key nor a \<open>clear\<close>, then after them \<open>find\<close> of the key
  returns true with the value most recently inserted for it.
\<close>

theorem C1_round_trip:
  assumes "hash_contract hf" and "0 < n" and "2 \<le> depth"
    and "\<forall>rq\<in>set later. rq \<noteq> Remove k \<and> rq \<noteq> Clear"
  shows "(\<exists>rs t. oa_run depth hf before (oa_new n) = Some (Inr (rs, t)) \<and>
            (\<exists>b t1. oa_insert depth hf t k v = Some (Inr (b, t1)) \<and>
               (b \<longrightarrow> (\<exists>rs' t2. oa_run depth hf later t1 = Some (Inr (rs', t2)) \<and>
                         oa_find hf t2 k = Some (Inr (Some (latest k v later))))))) \<and>
         (\<exists>rs t. avlht_run depth hf before (avlht_new n) = Some (Inr (rs, t)) \<and>
            (\<exists>t1. avlht_insert depth hf t k v = Some (Inr (True, t1)) \<and>
               (\<exists>rs' t2. avlht_run depth hf later t1 = Some (Inr (rs', t2)) \<and>
                  avlht_find hf t2 k = Inr (Some (latest k v later)))))"
proof
  from depth2[OF assms(3)] obtain d where d: "depth = Suc (Suc d)" by blast
  from oa_reachable[OF assms(1,2,3), of before] obtain rs t where
    run: "oa_run depth hf before (oa_new n) = Some (Inr (rs, t))" and inv: "oa_inv hf t" by blast
  from oa_insert_effect[OF assms(1) inv, of d k v] obtain b t1 where
    i: "oa_insert (Suc (Suc d)) hf t k v = Some (Inr (b, t1))" "oa_inv hf t1"
      "b \<longrightarrow> oa_map t1 = (oa_map t)(k \<mapsto> v)"
    by blast
  have "b \<longrightarrow> (\<exists>rs' t2. oa_run depth hf later t1 = Some (Inr (rs', t2)) \<and>
                         oa_find hf t2 k = Some (Inr (Some (latest k v later))))"
  proof
    assume b
    then have m: "oa_map t1 k = Some v" using i(3) by simp
    from oa_run_keeps[OF assms(1) i(2) m assms(4), of d] obtain rs' t2 where
      k: "oa_run (Suc (Suc d)) hf later t1 = Some (Inr (rs', t2))" "oa_inv hf t2"
        "oa_map t2 k = Some (latest k v later)"
      by blast
    have "oa_find hf t2 k = Some (Inr (Some (latest k v later)))"
      using oa_find_map[OF assms(1) k(2), of k] k(3) by simp
    then show "\<exists>rs' t2. oa_run depth hf later t1 = Some (Inr (rs', t2)) \<and>
                         oa_find hf t2 k = Some (Inr (Some (latest k v later)))"
      using k(1) d by blast
  qed
  then show "\<exists>rs t. oa_run depth hf before (oa_new n) = Some (Inr (rs, t)) \<and>
            (\<exists>b t1. oa_insert depth hf t k v = Some (Inr (b, t1)) \<and>
               (b \<longrightarrow> (\<exists>rs' t2. oa_run depth hf later t1 = Some (Inr (rs', t2)) \<and>
                         oa_find hf t2 k = Some (Inr (Some (latest k v later))))))"
    using run i(1) d by blast
next
  from depth2[OF assms(3)] obtain d where d: "depth = Suc (Suc d)" by blast
  from avlht_reachable[OF assms(1,2,3), of before] obtain rs t where
    run: "avlht_run depth hf before (avlht_new n) = Some (Inr (rs, t))"
    and inv: "avlht_inv hf t" by blast
  from avlht_insert_effect[OF assms(1) inv, of d k v] obtain t1 where
    i: "avlht_insert (Suc (Suc d)) hf t k v = Some (Inr (True, t1))" "avlht_inv hf t1"
      "avlht_map hf t1 = (avlht_map hf t)(k \<mapsto> v)"
    by blast
  have m: "avlht_map hf t1 k = Some v" using i(3) by simp
  from avlht_run_keeps[OF assms(1) i(2) m assms(4), of d] obtain rs' t2 where
    k: "avlht_run (Suc (Suc d)) hf later t1 = Some (Inr (rs', t2))" "avlht_inv hf t2"
      "avlht_map hf t2 k = Some (latest k v later)"
    by blast
  have "avlht_find hf t2 k = Inr (Some (latest k v later))"
    using avlht_find_map[OF assms(1) k(2), of k] k(3) by simp
  then show "\<exists>rs t. avlht_run depth hf before (avlht_new n) = Some (Inr (rs, t)) \<and>
            (\<exists>t1. avlht_insert depth hf t k v = Some (Inr (True, t1)) \<and>
               (\<exists>rs' t2. avlht_run depth hf later t1 = Some (Inr (rs', t2)) \<and>
                  avlht_find hf t2 k = Inr (Some (latest k v later))))"
    using run i(1) k(1) d by blast
qed

theorem C1_round_trip_witness:
  "(\<exists>t1. oa_insert (Suc (Suc 0)) hash_function
        \<lparr>table = [\<lparr>key = 1, val = 10, state = OCCUPIED\<rparr>], table_size = Suc 0,
         current_size = Suc 0\<rparr> 2 20 = Some (Inr (True, t1)) \<and>
      (\<exists>rs' t2. oa_run (Suc (Suc 0)) hash_function
                    [Insert 3 30, Insert 2 21, Remove 1, Find 2] t1 = Some (Inr (rs', t2)) \<and>
                 oa_find hash_function t2 2 = Some (Inr (Some 21)))) \<and>
   (\<exists>t1. avlht_insert (Suc (Suc 0)) hash_function
        \<lparr>table = [Node 1 10 2 Null (Node 2 20 1 Null Null)], table_size = Suc 0,
         current_size = Suc (Suc 0)\<rparr> 3 30 = Some (Inr (True, t1)) \<and>
      (\<exists>rs' t2. avlht_run (Suc (Suc 0)) hash_function
                    [Insert 4 40, Insert 3 31, Remove 1, Find 3] t1 = Some (Inr (rs', t2)) \<and>
                 avlht_find hash_function t2 3 = Inr (Some 31)))"
proof -
  have h: "(0::nat) < Suc 0" "2 \<le> Suc (Suc 0)" by simp_all
  let ?T = "\<lparr>table = [\<lparr>key = 1, val = 10, state = OCCUPIED\<rparr>], table_size = Suc 0,
         current_size = Suc 0\<rparr>"
  let ?U = "\<lparr>table = [Node 1 10 2 Null (Node 2 20 1 Null Null)], table_size = Suc 0,
         current_size = Suc (Suc 0)\<rparr>"
  have l: "\<forall>rq\<in>set [Insert 3 30, Insert 2 21, Remove 1, Find 2]. rq \<noteq> Remove 2 \<and> rq \<noteq> Clear"
    by simp
  have e: "latest 2 20 [Insert 3 30, Insert 2 21, Remove 1, Find 2] = 21" by simp
  have l': "\<forall>rq\<in>set [Insert 4 40, Insert 3 31, Remove 1, Find 3]. rq \<noteq> Remove 3 \<and> rq \<noteq> Clear"
    by simp
  have e': "latest 3 30 [Insert 4 40, Insert 3 31, Remove 1, Find 3] = 31" by simp
  from C1_round_trip[OF hash_function_contract h l, of "[Insert 1 10]" 20, THEN conjunct1]
  obtain rs t b t1 where
    a: "oa_run (Suc (Suc 0)) hash_function [Insert 1 10] (oa_new (Suc 0)) = Some (Inr (rs, t))"
    and i: "oa_insert (Suc (Suc 0)) hash_function t 2 20 = Some (Inr (b, t1))"
    and r: "b \<longrightarrow> (\<exists>rs' t2. oa_run (Suc (Suc 0)) hash_function
                     [Insert 3 30, Insert 2 21, Remove 1, Find 2] t1 = Some (Inr (rs', t2)) \<and>
                   oa_find hash_function t2 2 = Some (Inr (Some 21)))"
    unfolding e by blast
  have t: "t = ?T" using a unfolding oa_run_example by simp
  have b: "b = True" using i unfolding t oa_insert_example by simp
  have 1: "\<exists>t1. oa_insert (Suc (Suc 0)) hash_function ?T 2 20 = Some (Inr (True, t1)) \<and>
      (\<exists>rs' t2. oa_run (Suc (Suc 0)) hash_function
                    [Insert 3 30, Insert 2 21, Remove 1, Find 2] t1 = Some (Inr (rs', t2)) \<and>
                 oa_find hash_function t2 2 = Some (Inr (Some 21)))"
    using i r unfolding t b by blast
  from C1_round_trip[OF hash_function_contract h l', of "[Insert 1 10, Insert 2 20]" 30,
      THEN conjunct2]
  obtain rs' u where
    c: "avlht_run (Suc (Suc 0)) hash_function [Insert 1 10, Insert 2 20] (avlht_new (Suc 0)) =
          Some (Inr (rs', u))"
    and d: "\<exists>t1. avlht_insert (Suc (Suc 0)) hash_function u 3 30 = Some (Inr (True, t1)) \<and>
      (\<exists>rs' t2. avlht_run (Suc (Suc 0)) hash_function
                    [Insert 4 40, Insert 3 31, Remove 1, Find 3] t1 = Some (Inr (rs', t2)) \<and>
                 avlht_find hash_function t2 3 = Inr (Some 31))"
    unfolding e' by blast
  have u: "u = ?U" using c unfolding avlht_run_example by simp
  show ?thesis using 1 d unfolding u by blast
qed

text \<open>
  C2. Starting from a fresh table of positive capacity, inserting \<open>N\<close> pairs with distinct
  keys returns true every time and leaves \<open>size()\<close> equal to \<open>N\<close>; and on every table
  reached from a fresh one, inserting a key that \<open>find\<close> reports present returns true,
  leaves \<open>size()\<close> unchanged, makes \<open>find\<close> of that key return the new value and leaves
  \<open>find\<close> of every other key as it was. This holds for the open-addressing table and
  for the AVL table.
\<close>

theorem C2_size_counts_distinct_keys:
  assumes "hash_contract hf" and "0 < n" and "2 \<le> depth"
  shows "(distinct (map fst kvs) \<longrightarrow>
            (\<exists>rs t. oa_run depth hf (map (\<lambda>(k, v). Insert k v) kvs) (oa_new n) =
                       Some (Inr (rs, t)) \<and>
                     (\<forall>r\<in>set rs. r = Flag True) \<and> oa_size t = length kvs)) \<and>
         (distinct (map fst kvs) \<longrightarrow>
            (\<exists>rs t. avlht_run depth hf (map (\<lambda>(k, v). Insert k v) kvs) (avlht_new n) =
                       Some (Inr (rs, t)) \<and>
                     (\<forall>r\<in>set rs. r = Flag True) \<and> avlht_size t = length kvs)) \<and>
         (\<exists>rs t. oa_run depth hf rqs (oa_new n) = Some (Inr (rs, t)) \<and>
            (\<forall>k v w. oa_find hf t k = Some (Inr (Some w)) \<longrightarrow>
               (\<exists>t'. oa_insert depth hf t k v = Some (Inr (True, t')) \<and>
                  oa_size t' = oa_size t \<and> oa_find hf t' k = Some (Inr (Some v)) \<and>
                  (\<forall>k'. k' \<noteq> k \<longrightarrow> oa_find hf t' k' = oa_find hf t k')))) \<and>
         (\<exists>rs t. avlht_run depth hf rqs (avlht_new n) = Some (Inr (rs, t)) \<and>
            (\<forall>k v w. avlht_find hf t k = Inr (Some w) \<longrightarrow>
               (\<exists>t'. avlht_insert depth hf t k v = Some (Inr (True, t')) \<and>
                  avlht_size t' = avlht_size t \<and> avlht_find hf t' k = Inr (Some v) \<and>
                  (\<forall>k'. k' \<noteq> k \<longrightarrow> avlht_find hf t' k' = avlht_find hf t k'))))"
proof -
  from depth2[OF assms(3)] obtain d where d: "depth = Suc (Suc d)" by blast
  have 1: "distinct (map fst kvs) \<longrightarrow>
            (\<exists>rs t. oa_run depth hf (map (\<lambda>(k, v). Insert k v) kvs) (oa_new n) =
                       Some (Inr (rs, t)) \<and>
                     (\<forall>r\<in>set rs. r = Flag True) \<and> oa_size t = length kvs)"
  proof
    assume dk: "distinct (map fst kvs)"
    have nd: "\<forall>e\<in>set (table (oa_new n)). state e \<noteq> DELETED"
      using oa_inv_new(3)[OF assms(2)] by simp
    have ab: "\<forall>p\<in>set kvs. oa_map (oa_new n) (fst p) = None"
      using oa_inv_new(2)[OF assms(2)] by simp
    from oa_insert_only[OF assms(1) oa_inv_new(1)[OF assms(2)] nd dk ab, of d]
    obtain rs t where
      "oa_run (Suc (Suc d)) hf (map (\<lambda>(k, v). Insert k v) kvs) (oa_new n) = Some (Inr (rs, t))"
      "\<forall>r\<in>set rs. r = Flag True" "current_size t = current_size (oa_new n) + length kvs"
      by blast
    then show "\<exists>rs t. oa_run depth hf (map (\<lambda>(k, v). Insert k v) kvs) (oa_new n) =
                       Some (Inr (rs, t)) \<and>
                     (\<forall>r\<in>set rs. r = Flag True) \<and> oa_size t = length kvs"
      using d by (simp add: oa_size_def oa_new_def)
  qed
  have 2: "distinct (map fst kvs) \<longrightarrow>
            (\<exists>rs t. avlht_run depth hf (map (\<lambda>(k, v). Insert k v) kvs) (avlht_new n) =
                       Some (Inr (rs, t)) \<and>
                     (\<forall>r\<in>set rs. r = Flag True) \<and> avlht_size t = length kvs)"
  proof
    assume dk: "distinct (map fst kvs)"
    have ab: "\<forall>p\<in>set kvs. avlht_map hf (avlht_new n) (fst p) = None"
      using avlht_inv_new(2)[OF assms(2), of hf] by simp
    from avlht_insert_only[OF assms(1) avlht_inv_new(1)[OF assms(2)] dk ab, of d]
    obtain rs t where
      "avlht_run (Suc (Suc d)) hf (map (\<lambda>(k, v). Insert k v) kvs) (avlht_new n) =
         Some (Inr (rs, t))"
      "\<forall>r\<in>set rs. r = Flag True" "current_size t = current_size (avlht_new n) + length kvs"
      by blast
    then show "\<exists>rs t. avlht_run depth hf (map (\<lambda>(k, v). Insert k v) kvs) (avlht_new n) =
                       Some (Inr (rs, t)) \<and>
                     (\<forall>r\<in>set rs. r = Flag True) \<and> avlht_size t = length kvs"
      using d by (simp add: avlht_size_def avlht_new_def)
  qed
  from oa_reachable[OF assms, of rqs] obtain rs t where
    run: "oa_run depth hf rqs (oa_new n) = Some (Inr (rs, t))" and inv: "oa_inv hf t" by blast
  have "\<forall>k v w. oa_find hf t k = Some (Inr (Some w)) \<longrightarrow>
               (\<exists>t'. oa_insert depth hf t k v = Some (Inr (True, t')) \<and>
                  oa_size t' = oa_size t \<and> oa_find hf t' k = Some (Inr (Some v)) \<and>
                  (\<forall>k'. k' \<noteq> k \<longrightarrow> oa_find hf t' k' = oa_find hf t k'))"
  proof (intro allI impI)
    fix k v w
    assume f: "oa_find hf t k = Some (Inr (Some w))"
    have m: "oa_map t k = Some w" using oa_find_map[OF assms(1) inv, of k] f by simp
    from oa_insert_effect[OF assms(1) inv, of d k v] obtain b t' where
      i: "oa_insert (Suc (Suc d)) hf t k v = Some (Inr (b, t'))" "oa_inv hf t'"
        "b \<longrightarrow> oa_map t' = (oa_map t)(k \<mapsto> v) \<and>
           current_size t' = (if oa_map t k = None then current_size t + 1 else current_size t)"
        "\<not> b \<longleftrightarrow> \<not> table_size t < 2 * current_size t \<and> oa_map t k = None \<and>
           (\<forall>e\<in>set (table t). state e \<noteq> EMPTY) \<and>
           (\<exists>h. hf k (table_size t) = Inr h \<and> state (table t ! h) = OCCUPIED)"
      by blast
    have b: b using i(4) m by auto
    have m': "oa_map t' = (oa_map t)(k \<mapsto> v)" and c: "current_size t' = current_size t"
      using i(3) b m by simp_all
    have fk: "oa_find hf t' k = Some (Inr (Some v))"
      using oa_find_map[OF assms(1) i(2), of k] m' by simp
    have fo: "\<forall>k'. k' \<noteq> k \<longrightarrow> oa_find hf t' k' = oa_find hf t k'"
      using oa_find_map[OF assms(1) i(2)] oa_find_map[OF assms(1) inv] m' by simp
    show "\<exists>t'. oa_insert depth hf t k v = Some (Inr (True, t')) \<and>
                  oa_size t' = oa_size t \<and> oa_find hf t' k = Some (Inr (Some v)) \<and>
                  (\<forall>k'. k' \<noteq> k \<longrightarrow> oa_find hf t' k' = oa_find hf t k')"
      using i(1) b c fk fo d by (simp add: oa_size_def)
  qed
  with run have 3: "\<exists>rs t. oa_run depth hf rqs (oa_new n) = Some (Inr (rs, t)) \<and>
            (\<forall>k v w. oa_find hf t k = Some (Inr (Some w)) \<longrightarrow>
               (\<exists>t'. oa_insert depth hf t k v = Some (Inr (True, t')) \<and>
                  oa_size t' = oa_size t \<and> oa_find hf t' k = Some (Inr (Some v)) \<and>
                  (\<forall>k'. k' \<noteq> k \<longrightarrow> oa_find hf t' k' = oa_find hf t k')))"
    by blast
  from avlht_reachable[OF assms, of rqs] obtain rs' u where
    run': "avlht_run depth hf rqs (avlht_new n) = Some (Inr (rs', u))"
    and inv': "avlht_inv hf u" by blast
  have "\<forall>k v w. avlht_find hf u k = Inr (Some w) \<longrightarrow>
               (\<exists>t'. avlht_insert depth hf u k v = Some (Inr (True, t')) \<and>
                  avlht_size t' = avlht_size u \<and> avlht_find hf t' k = Inr (Some v) \<and>
                  (\<forall>k'. k' \<noteq> k \<longrightarrow> avlht_find hf t' k' = avlht_find hf u k'))"
  proof (intro allI impI)
    fix k v w
    assume f: "avlht_find hf u k = Inr (Some w)"
    have m: "avlht_map hf u k = Some w" using avlht_find_map[OF assms(1) inv', of k] f by simp
    from avlht_insert_effect[OF assms(1) inv', of d k v] m obtain t' where
      i: "avlht_insert (Suc (Suc d)) hf u k v = Some (Inr (True, t'))" "avlht_inv hf t'"
        "avlht_map hf t' = (avlht_map hf u)(k \<mapsto> v)" "current_size t' = current_size u"
      by auto
    have fk: "avlht_find hf t' k = Inr (Some v)"
      using avlht_find_map[OF assms(1) i(2), of k] i(3) by simp
    have fo: "\<forall>k'. k' \<noteq> k \<longrightarrow> avlht_find hf t' k' = avlht_find hf u k'"
      using avlht_find_map[OF assms(1) i(2)] avlht_find_map[OF assms(1) inv'] i(3) by simp
    show "\<exists>t'. avlht_insert depth hf u k v = Some (Inr (True, t')) \<and>
                  avlht_size t' = avlht_size u \<and> avlht_find hf t' k = Inr (Some v) \<and>
                  (\<forall>k'. k' \<noteq> k \<longrightarrow> avlht_find hf t' k' = avlht_find hf u k')"
      using i(1,4) fk fo d by (simp add: avlht_size_def)
  qed
  with run' have 4: "\<exists>rs t. avlht_run depth hf rqs (avlht_new n) = Some (Inr (rs, t)) \<and>
            (\<forall>k v w. avlht_find hf t k = Inr (Some w) \<longrightarrow>
               (\<exists>t'. avlht_insert depth hf t k v = Some (Inr (True, t')) \<and>
                  avlht_size t' = avlht_size t \<and> avlht_find hf t' k = Inr (Some v) \<and>
                  (\<forall>k'. k' \<noteq> k \<longrightarrow> avlht_find hf t' k' = avlht_find hf t k')))"
    by blast
  show ?thesis using 1 2 3 4 by blast
qed

theorem C2_size_counts_distinct_keys_witness:
  "(\<exists>rs t. oa_run (Suc (Suc 0)) hash_function [Insert 1 10, Insert 2 20, Insert 3 30]
               (oa_new (Suc 0)) = Some (Inr (rs, t)) \<and>
            (\<forall>r\<in>set rs. r = Flag True) \<and> oa_size t = 3) \<and>
   (\<exists>rs t. avlht_run (Suc (Suc 0)) hash_function [Insert 1 10, Insert 2 20, Insert 3 30]
               (avlht_new (Suc 0)) = Some (Inr (rs, t)) \<and>
            (\<forall>r\<in>set rs. r = Flag True) \<and> avlht_size t = 3) \<and>
   (\<exists>t'. oa_insert (Suc (Suc 0)) hash_function
        \<lparr>table = [\<lparr>key = 1, val = 10, state = OCCUPIED\<rparr>], table_size = Suc 0,
         current_size = Suc 0\<rparr> 1 11 = Some (Inr (True, t')) \<and>
      oa_size t' = 1 \<and> oa_find hash_function t' 1 = Some (Inr (Some 11))) \<and>
   (\<exists>t'. avlht_insert (Suc (Suc 0)) hash_function
        \<lparr>table = [Node 1 10 2 Null (Node 2 20 1 Null Null)], table_size = Suc 0,
         current_size = Suc (Suc 0)\<rparr> 2 21 = Some (Inr (True, t')) \<and>
      avlht_size t' = 2 \<and> avlht_find hash_function t' 2 = Inr (Some 21))"
proof -
  have h: "(0::nat) < Suc 0" "2 \<le> Suc (Suc 0)" by simp_all
  let ?T = "\<lparr>table = [\<lparr>key = 1, val = 10, state = OCCUPIED\<rparr>], table_size = Suc 0,
         current_size = Suc 0\<rparr>"
  let ?U = "\<lparr>table = [Node 1 10 2 Null (Node 2 20 1 Null Null)], table_size = Suc 0,
         current_size = Suc (Suc 0)\<rparr>"
  note A = C2_size_counts_distinct_keys[OF hash_function_contract h,
      of "[(1, 10), (2, 20), (3, 30)]" "[Insert 1 10]"]
  note B = C2_size_counts_distinct_keys[OF hash_function_contract h,
      of "[(1, 10), (2, 20), (3, 30)]" "[Insert 1 10, Insert 2 20]"]
  have dk: "distinct (map fst [(1::int, 10::int), (2, 20), (3, 30)])" by simp
  have m: "map (\<lambda>(k, v). Insert k v) [(1::int, 10::int), (2, 20), (3, 30)] =
      [Insert 1 10, Insert 2 20, Insert 3 30]" by simp
  have l: "length [(1::int, 10::int), (2, 20), (3, 30)] = 3" by simp
  have 1: "\<exists>rs t. oa_run (Suc (Suc 0)) hash_function [Insert 1 10, Insert 2 20, Insert 3 30]
               (oa_new (Suc 0)) = Some (Inr (rs, t)) \<and>
            (\<forall>r\<in>set rs. r = Flag True) \<and> oa_size t = 3"
    using A[THEN conjunct1, rule_format, OF dk] unfolding m l .
  have 2: "\<exists>rs t. avlht_run (Suc (Suc 0)) hash_function [Insert 1 10, Insert 2 20, Insert 3 30]
               (avlht_new (Suc 0)) = Some (Inr (rs, t)) \<and>
            (\<forall>r\<in>set rs. r = Flag True) \<and> avlht_size t = 3"
    using A[THEN conjunct2, THEN conjunct1, rule_format, OF dk] unfolding m l .
  from A[THEN conjunct2, THEN conjunct2, THEN conjunct1] obtain rs t where
    a: "oa_run (Suc (Suc 0)) hash_function [Insert 1 10] (oa_new (Suc 0)) = Some (Inr (rs, t))"
    and b: "\<forall>k v w. oa_find hash_function t k = Some (Inr (Some w)) \<longrightarrow>
               (\<exists>t'. oa_insert (Suc (Suc 0)) hash_function t k v = Some (Inr (True, t')) \<and>
                  oa_size t' = oa_size t \<and> oa_find hash_function t' k = Some (Inr (Some v)) \<and>
                  (\<forall>k'. k' \<noteq> k \<longrightarrow> oa_find hash_function t' k' = oa_find hash_function t k'))"
    by blast
  have t: "t = ?T" using a unfolding oa_run_example by simp
  have 3: "\<exists>t'. oa_insert (Suc (Suc 0)) hash_function ?T 1 11 = Some (Inr (True, t')) \<and>
      oa_size t' = 1 \<and> oa_find hash_function t' 1 = Some (Inr (Some 11))"
    using b[rule_format, of 1 10 11] oa_find_example unfolding t
    by (auto simp: oa_size_def)
  from B[THEN conjunct2, THEN conjunct2, THEN conjunct2] obtain rs' u where
    c: "avlht_run (Suc (Suc 0)) hash_function [Insert 1 10, Insert 2 20] (avlht_new (Suc 0)) =
          Some (Inr (rs', u))"
    and e: "\<forall>k v w. avlht_find hash_function u k = Inr (Some w) \<longrightarrow>
               (\<exists>t'. avlht_insert (Suc (Suc 0)) hash_function u k v = Some (Inr (True, t')) \<and>
                  avlht_size t' = avlht_size u \<and> avlht_find hash_function t' k = Inr (Some v) \<and>
                  (\<forall>k'. k' \<noteq> k \<longrightarrow>
                     avlht_find hash_function t' k' = avlht_find hash_function u k'))"
    by blast
  have u: "u = ?U" using c unfolding avlht_run_example by simp
  have 4: "\<exists>t'. avlht_insert (Suc (Suc 0)) hash_function ?U 2 21 = Some (Inr (True, t')) \<and>
      avlht_size t' = 2 \<and> avlht_find hash_function t' 2 = Inr (Some 21)"
    using e[rule_format, of 2 20 21] avlht_find_example unfolding u
    by (auto simp: avlht_size_def)
  show ?thesis using 1 2 3 4 by blast
qed

text \<open>
  C3. After every sequence of insert, remove, find and clear requests on a fresh
  open-addressing table of positive capacity: every live key is reached by its probe
  sequence before any \<open>EMPTY\<close> slot, so \<open>find\<close> returns its value; and a \<open>remove\<close> that
  returns true has changed exactly the slot of its key, to \<open>DELETED\<close>, after which the
  invariant still holds and \<open>find\<close> answers as before for every other key.
\<close>

theorem C3_probe_reaches_live_keys:
  assumes "hash_contract hf" and "0 < n" and "2 \<le> depth"
  shows "\<exists>rs t. oa_run depth hf rqs (oa_new n) = Some (Inr (rs, t)) \<and> probe_reaches hf t \<and>
           (\<forall>e\<in>set (table t). state e = OCCUPIED \<longrightarrow>
              oa_find hf t (key e) = Some (Inr (Some (val e)))) \<and>
           (\<forall>k. \<exists>b t'. oa_remove hf t k = Some (Inr (b, t')) \<and> probe_reaches hf t' \<and>
              (b \<longrightarrow> (\<exists>i<length (table t). state (table t ! i) = OCCUPIED \<and>
                        key (table t ! i) = k \<and>
                        table t' = (table t)[i := (table t ! i)\<lparr>state := DELETED\<rparr>])) \<and>
              (\<forall>k'. k' \<noteq> k \<longrightarrow> oa_find hf t' k' = oa_find hf t k'))"
proof -
  from oa_reachable[OF assms, of rqs] obtain rs t where
    run: "oa_run depth hf rqs (oa_new n) = Some (Inr (rs, t))" and inv: "oa_inv hf t" by blast
  have pr: "probe_reaches hf t" and dl: "distinct_live (table t)"
    using inv by (simp_all add: oa_inv_def)
  have fnd: "\<forall>e\<in>set (table t). state e = OCCUPIED \<longrightarrow>
              oa_find hf t (key e) = Some (Inr (Some (val e)))"
  proof (intro ballI impI)
    fix e assume e: "e \<in> set (table t)" "state e = OCCUPIED"
    then obtain i where i: "i < length (table t)" "table t ! i = e"
      by (auto simp: in_set_conv_nth)
    have "live (key e) (table t ! i)" using i(2) e(2) by (simp add: live_def)
    from oa_map_live[OF dl i(1) this] have "oa_map t (key e) = Some (val e)" using i(2) by simp
    then show "oa_find hf t (key e) = Some (Inr (Some (val e)))"
      using oa_find_map[OF assms(1) inv, of "key e"] by simp
  qed
  have rem: "\<forall>k. \<exists>b t'. oa_remove hf t k = Some (Inr (b, t')) \<and> probe_reaches hf t' \<and>
              (b \<longrightarrow> (\<exists>i<length (table t). state (table t ! i) = OCCUPIED \<and>
                        key (table t ! i) = k \<and>
                        table t' = (table t)[i := (table t ! i)\<lparr>state := DELETED\<rparr>])) \<and>
              (\<forall>k'. k' \<noteq> k \<longrightarrow> oa_find hf t' k' = oa_find hf t k')"
  proof
    fix k
    from oa_remove_effect[OF assms(1) inv, of k] obtain b t' where
      r: "oa_remove hf t k = Some (Inr (b, t'))" "oa_inv hf t'"
        "oa_map t' = (oa_map t)(k := None)"
        "b \<longrightarrow> (\<exists>p<length (table t). live k (table t ! p) \<and>
                 table t' = (table t)[p := (table t ! p)\<lparr>state := DELETED\<rparr>])"
      by blast
    have 1: "probe_reaches hf t'" using r(2) by (simp add: oa_inv_def)
    have 2: "b \<longrightarrow> (\<exists>i<length (table t). state (table t ! i) = OCCUPIED \<and>
                        key (table t ! i) = k \<and>
                        table t' = (table t)[i := (table t ! i)\<lparr>state := DELETED\<rparr>])"
      using r(4) by (simp add: live_def)
    have 3: "\<forall>k'. k' \<noteq> k \<longrightarrow> oa_find hf t' k' = oa_find hf t k'"
      using oa_find_map[OF assms(1) r(2)] oa_find_map[OF assms(1) inv] r(3) by simp
    show "\<exists>b t'. oa_remove hf t k = Some (Inr (b, t')) \<and> probe_reaches hf t' \<and>
              (b \<longrightarrow> (\<exists>i<length (table t). state (table t ! i) = OCCUPIED \<and>
                        key (table t ! i) = k \<and>
                        table t' = (table t)[i := (table t ! i)\<lparr>state := DELETED\<rparr>])) \<and>
              (\<forall>k'. k' \<noteq> k \<longrightarrow> oa_find hf t' k' = oa_find hf t k')"
      using r(1) 1 2 3 by blast
  qed
  show ?thesis using run pr fnd rem by blast
qed

theorem C3_probe_reaches_live_keys_witness:
  "probe_reaches hash_function
     \<lparr>table = [\<lparr>key = 3, val = 30, state = OCCUPIED\<rparr>, \<lparr>key = 1, val = 10, state = DELETED\<rparr>],
      table_size = Suc (Suc 0), current_size = Suc 0\<rparr> \<and>
   oa_find hash_function
     \<lparr>table = [\<lparr>key = 3, val = 30, state = OCCUPIED\<rparr>, \<lparr>key = 1, val = 10, state = DELETED\<rparr>],
      table_size = Suc (Suc 0), current_size = Suc 0\<rparr> 3 = Some (Inr (Some 30))"
proof -
  have h: "(0::nat) < Suc (Suc 0)" "2 \<le> Suc (Suc 0)" by simp_all
  from C3_probe_reaches_live_keys[OF hash_function_contract h,
      of "[Insert 1 10, Insert 3 30, Remove 1]"]
  obtain rs t where
    a: "oa_run (Suc (Suc 0)) hash_function [Insert 1 10, Insert 3 30, Remove 1]
          (oa_new (Suc (Suc 0))) = Some (Inr (rs, t))"
    and p: "probe_reaches hash_function t"
    and f: "\<forall>e\<in>set (table t). state e = OCCUPIED \<longrightarrow>
              oa_find hash_function t (key e) = Some (Inr (Some (val e)))"
    by blast
  have t: "t = \<lparr>table = [\<lparr>key = 3, val = 30, state = OCCUPIED\<rparr>,
      \<lparr>key = 1, val = 10, state = DELETED\<rparr>], table_size = Suc (Suc 0), current_size = Suc 0\<rparr>"
    using a unfolding oa_run_example_deleted by simp
  show ?thesis using p f unfolding t by simp
qed

text \<open>
  C4. After every sequence of requests on a fresh AVL table of positive capacity, every
  bucket is a binary search tree (its in-order traversal has strictly increasing keys)
  and satisfies the AVL balance invariant: at every node the heights of the two subtrees
  differ by at most one and the stored height is one more than the larger of them, an
  absent subtree having height 0.
\<close>

theorem C4_buckets_are_avl_trees:
  assumes "hash_contract hf" and "0 < n" and "2 \<le> depth"
  shows "\<exists>rs t. avlht_run depth hf rqs (avlht_new n) = Some (Inr (rs, t)) \<and>
           (\<forall>root\<in>set (table t).
              sorted_wrt (<) (map fst (inorder root)) \<and> balanced root)"
proof -
  from avlht_reachable[OF assms, of rqs] obtain rs t where
    run: "avlht_run depth hf rqs (avlht_new n) = Some (Inr (rs, t))" and inv: "avlht_inv hf t"
    by blast
  have "\<forall>root\<in>set (table t). sorted_wrt (<) (map fst (inorder root)) \<and> balanced root"
  proof
    fix root assume "root \<in> set (table t)"
    then obtain i where i: "i < length (table t)" "table t ! i = root"
      by (auto simp: in_set_conv_nth)
    then have "avl root" "bst root" using inv by (auto simp: avlht_inv_def)
    then show "sorted_wrt (<) (map fst (inorder root)) \<and> balanced root"
      using avl_balanced[of root] by (simp add: bst_def)
  qed
  then show ?thesis using run by blast
qed

theorem C4_buckets_are_avl_trees_witness:
  "\<exists>rs t. avlht_run 2 hash_function
       [Insert 1 10, Insert 2 20, Insert 3 30, Insert 4 40, Remove 2, Insert 5 50] (avlht_new 1) =
     Some (Inr (rs, t)) \<and>
     (\<forall>root\<in>set (table t). sorted_wrt (<) (map fst (inorder root)) \<and> balanced root)"
proof -
  have h: "(0::nat) < 1" "(2::nat) \<le> 2" by simp_all
  show ?thesis
    by (rule C4_buckets_are_avl_trees[OF hash_function_contract h])
qed

text \<open>
  C5. On every table reached from a fresh one of positive capacity: \<open>insert\<close> leaves the
  capacity as it is unless the load factor exceeds the threshold (\<open>table_size <
  2 * current_size\<close> for open addressing, \<open>table_size < current_size\<close> for the AVL
  table), and then exactly doubles it; and when the threshold is exceeded, \<open>resize\<close>
  returns a table of twice the capacity with the same size, in which \<open>find\<close> answers for
  every key as before, and which for open addressing holds no \<open>DELETED\<close> slot.
\<close>

theorem C5_growth_preserves_contents:
  assumes "hash_contract hf" and "0 < n" and "2 \<le> depth"
  shows "(\<exists>rs t. oa_run depth hf rqs (oa_new n) = Some (Inr (rs, t)) \<and>
            (\<forall>k v. \<exists>b t2. oa_insert depth hf t k v = Some (Inr (b, t2)) \<and>
               table_size t2 =
                 (if table_size t < 2 * current_size t then 2 * table_size t else table_size t)) \<and>
            (table_size t < 2 * current_size t \<longrightarrow>
               (\<exists>t1. oa_resize (depth - 1) hf t = Some (Inr t1) \<and>
                  table_size t1 = 2 * table_size t \<and> oa_size t1 = oa_size t \<and>
                  (\<forall>k. oa_find hf t1 k = oa_find hf t k) \<and>
                  (\<forall>e\<in>set (table t1). state e \<noteq> DELETED)))) \<and>
         (\<exists>rs t. avlht_run depth hf rqs (avlht_new n) = Some (Inr (rs, t)) \<and>
            (\<forall>k v. \<exists>b t2. avlht_insert depth hf t k v = Some (Inr (b, t2)) \<and>
               table_size t2 =
                 (if table_size t < current_size t then 2 * table_size t else table_size t)) \<and>
            (table_size t < current_size t \<longrightarrow>
               (\<exists>t1. avlht_resize (depth - 1) hf t = Some (Inr t1) \<and>
                  table_size t1 = 2 * table_size t \<and> avlht_size t1 = avlht_size t \<and>
                  (\<forall>k. avlht_find hf t1 k = avlht_find hf t k))))"
proof -
  from depth2[OF assms(3)] obtain d where d: "depth = Suc (Suc d)" by blast
  from oa_reachable[OF assms, of rqs] obtain rs t where
    run: "oa_run depth hf rqs (oa_new n) = Some (Inr (rs, t))" and inv: "oa_inv hf t" by blast
  have ins: "\<forall>k v. \<exists>b t2. oa_insert depth hf t k v = Some (Inr (b, t2)) \<and>
               table_size t2 =
                 (if table_size t < 2 * current_size t then 2 * table_size t else table_size t)"
  proof (intro allI)
    fix k v
    from oa_insert_effect[OF assms(1) inv, of d k v] obtain b t2 where
      "oa_insert (Suc (Suc d)) hf t k v = Some (Inr (b, t2))"
      "table_size t2 =
         (if table_size t < 2 * current_size t then 2 * table_size t else table_size t)"
      by blast
    then show "\<exists>b t2. oa_insert depth hf t k v = Some (Inr (b, t2)) \<and>
               table_size t2 =
                 (if table_size t < 2 * current_size t then 2 * table_size t else table_size t)"
      using d by blast
  qed
  from oa_resize_effect[OF assms(1) inv, of d] obtain t1 where
    t1: "oa_resize (Suc d) hf t = Some (Inr t1)" "oa_inv hf t1"
      "table_size t1 = 2 * table_size t" "current_size t1 = current_size t"
      "oa_map t1 = oa_map t" "\<forall>e\<in>set (table t1). state e \<noteq> DELETED"
    by blast
  have f1: "\<forall>k. oa_find hf t1 k = oa_find hf t k"
    using oa_find_map[OF assms(1) t1(2)] oa_find_map[OF assms(1) inv] t1(5) by simp
  have res: "\<exists>t1. oa_resize (depth - 1) hf t = Some (Inr t1) \<and>
                  table_size t1 = 2 * table_size t \<and> oa_size t1 = oa_size t \<and>
                  (\<forall>k. oa_find hf t1 k = oa_find hf t k) \<and>
                  (\<forall>e\<in>set (table t1). state e \<noteq> DELETED)"
    using t1(1,3,4,6) f1 d unfolding oa_size_def by (intro exI[of _ t1]) simp
  have oa: "\<exists>rs t. oa_run depth hf rqs (oa_new n) = Some (Inr (rs, t)) \<and>
            (\<forall>k v. \<exists>b t2. oa_insert depth hf t k v = Some (Inr (b, t2)) \<and>
               table_size t2 =
                 (if table_size t < 2 * current_size t then 2 * table_size t else table_size t)) \<and>
            (table_size t < 2 * current_size t \<longrightarrow>
               (\<exists>t1. oa_resize (depth - 1) hf t = Some (Inr t1) \<and>
                  table_size t1 = 2 * table_size t \<and> oa_size t1 = oa_size t \<and>
                  (\<forall>k. oa_find hf t1 k = oa_find hf t k) \<and>
                  (\<forall>e\<in>set (table t1). state e \<noteq> DELETED)))"
    using run ins res by blast
  from avlht_reachable[OF assms, of rqs] obtain rs' t' where
    run': "avlht_run depth hf rqs (avlht_new n) = Some (Inr (rs', t'))"
    and inv': "avlht_inv hf t'" by blast
  have ins': "\<forall>k v. \<exists>b t2. avlht_insert depth hf t' k v = Some (Inr (b, t2)) \<and>
               table_size t2 =
                 (if table_size t' < current_size t' then 2 * table_size t' else table_size t')"
  proof (intro allI)
    fix k v
    from avlht_insert_effect[OF assms(1) inv', of d k v] obtain t2 where
      "avlht_insert (Suc (Suc d)) hf t' k v = Some (Inr (True, t2))"
      "table_size t2 =
         (if table_size t' < current_size t' then 2 * table_size t' else table_size t')"
      by blast
    then show "\<exists>b t2. avlht_insert depth hf t' k v = Some (Inr (b, t2)) \<and>
               table_size t2 =
                 (if table_size t' < current_size t' then 2 * table_size t' else table_size t')"
      using d by blast
  qed
  from avlht_resize_effect[OF assms(1) inv', of d] obtain t1' where
    t1': "avlht_resize (Suc d) hf t' = Some (Inr t1')" "avlht_inv hf t1'"
      "table_size t1' = 2 * table_size t'" "current_size t1' = current_size t'"
      "avlht_map hf t1' = avlht_map hf t'"
    by blast
  have f1': "\<forall>k. avlht_find hf t1' k = avlht_find hf t' k"
    using avlht_find_map[OF assms(1) t1'(2)] avlht_find_map[OF assms(1) inv'] t1'(5) by simp
  have res': "\<exists>t1. avlht_resize (depth - 1) hf t' = Some (Inr t1) \<and>
                  table_size t1 = 2 * table_size t' \<and> avlht_size t1 = avlht_size t' \<and>
                  (\<forall>k. avlht_find hf t1 k = avlht_find hf t' k)"
    using t1'(1,3,4) f1' d unfolding avlht_size_def by (intro exI[of _ t1']) simp
  have av: "\<exists>rs t. avlht_run depth hf rqs (avlht_new n) = Some (Inr (rs, t)) \<and>
            (\<forall>k v. \<exists>b t2. avlht_insert depth hf t k v = Some (Inr (b, t2)) \<and>
               table_size t2 =
                 (if table_size t < current_size t then 2 * table_size t else table_size t)) \<and>
            (table_size t < current_size t \<longrightarrow>
               (\<exists>t1. avlht_resize (depth - 1) hf t = Some (Inr t1) \<and>
                  table_size t1 = 2 * table_size t \<and> avlht_size t1 = avlht_size t \<and>
                  (\<forall>k. avlht_find hf t1 k = avlht_find hf t k)))"
    using run' ins' res' by blast
  show ?thesis using oa av by blast
qed

theorem C5_growth_preserves_contents_witness:
  "(\<exists>t1. oa_resize (Suc 0) hash_function
        \<lparr>table = [\<lparr>key = 1, val = 10, state = OCCUPIED\<rparr>], table_size = Suc 0,
         current_size = Suc 0\<rparr> = Some (Inr t1) \<and>
      table_size t1 = 2 \<and> oa_size t1 = 1 \<and> (\<forall>e\<in>set (table t1). state e \<noteq> DELETED)) \<and>
   (\<exists>t1. avlht_resize (Suc 0) hash_function
        \<lparr>table = [Node 1 10 2 Null (Node 2 20 1 Null Null)], table_size = Suc 0,
         current_size = Suc (Suc 0)\<rparr> = Some (Inr t1) \<and>
      table_size t1 = 2 \<and> avlht_size t1 = 2)"
proof -
  have h: "(0::nat) < Suc 0" "2 \<le> Suc (Suc 0)" by simp_all
  let ?T = "\<lparr>table = [\<lparr>key = 1, val = 10, state = OCCUPIED\<rparr>], table_size = Suc 0,
         current_size = Suc 0\<rparr>"
  let ?U = "\<lparr>table = [Node 1 10 2 Null (Node 2 20 1 Null Null)], table_size = Suc 0,
         current_size = Suc (Suc 0)\<rparr>"
  from C5_growth_preserves_contents[OF hash_function_contract h, of "[Insert 1 10]"]
  obtain rs t where
    a: "oa_run (Suc (Suc 0)) hash_function [Insert 1 10] (oa_new (Suc 0)) = Some (Inr (rs, t))"
    and b: "table_size t < 2 * current_size t \<longrightarrow>
               (\<exists>t1. oa_resize (Suc (Suc 0) - 1) hash_function t = Some (Inr t1) \<and>
                  table_size t1 = 2 * table_size t \<and> oa_size t1 = oa_size t \<and>
                  (\<forall>k. oa_find hash_function t1 k = oa_find hash_function t k) \<and>
                  (\<forall>e\<in>set (table t1). state e \<noteq> DELETED))"
    by blast
  have t: "t = ?T" using a unfolding oa_run_example by simp
  have 1: "\<exists>t1. oa_resize (Suc 0) hash_function ?T = Some (Inr t1) \<and>
      table_size t1 = 2 \<and> oa_size t1 = 1 \<and> (\<forall>e\<in>set (table t1). state e \<noteq> DELETED)"
    using b unfolding t by (simp add: oa_size_def) blast
  from C5_growth_preserves_contents[OF hash_function_contract h, of "[Insert 1 10, Insert 2 20]"]
  obtain rs' u where
    c: "avlht_run (Suc (Suc 0)) hash_function [Insert 1 10, Insert 2 20] (avlht_new (Suc 0)) =
          Some (Inr (rs', u))"
    and d: "table_size u < current_size u \<longrightarrow>
               (\<exists>t1. avlht_resize (Suc (Suc 0) - 1) hash_function u = Some (Inr t1) \<and>
                  table_size t1 = 2 * table_size u \<and> avlht_size t1 = avlht_size u \<and>
                  (\<forall>k. avlht_find hash_function t1 k = avlht_find hash_function u k))"
    by blast
  have u: "u = ?U" using c unfolding avlht_run_example by simp
  have 2: "\<exists>t1. avlht_resize (Suc 0) hash_function ?U = Some (Inr t1) \<and>
      table_size t1 = 2 \<and> avlht_size t1 = 2"
    using d unfolding u by (auto simp: avlht_size_def)
  show ?thesis using 1 2 by blast
qed

text \<open>
  C6. A fresh open-addressing table of capacity 2 receives \<open>insert(0, 0)\<close>, \<open>remove(0)\<close>,
  \<open>insert(1, 10)\<close> and \<open>insert(3, 30)\<close>. The last \<open>insert\<close> returns false, although the table
  holds one live key and slot 0 is \<open>DELETED\<close>: \<open>probe\<close> passes over the \<open>DELETED\<close> slot,
  comes back to the slot of key 1 and \<open>insert\<close> reports the table as full.
\<close>

theorem C6_insert_fails_beside_deleted_slot:
  "oa_run 2 hash_function [Insert 0 0, Remove 0, Insert 1 10, Insert 3 30] (oa_new 2) =
     Some (Inr ([Flag True, Flag True, Flag True, Flag False],
       \<lparr>table = [\<lparr>key = 0, val = 0, state = DELETED\<rparr>, \<lparr>key = 1, val = 10, state = OCCUPIED\<rparr>],
        table_size = 2, current_size = 1\<rparr>))"
proof -
  have 2: "(2::nat) = Suc (Suc 0)" by simp
  show ?thesis
    unfolding 2
    by (simp add: oa_new_def oa_insert.simps oa_remove_def decrement_def probe_def
        probe_loop.simps slot_at_def hash_mod_2[unfolded 2])
qed

text \<open>
  C7. On every table reached from a fresh one of positive capacity, for both tables:
  \<open>remove\<close> returns true exactly when the key is present; when it returns true the size
  was positive and is now one less; when it returns false the table is unchanged, and
  with it the size and every stored mapping.
\<close>

theorem C7_remove_flag_and_size:
  assumes "hash_contract hf" and "0 < n" and "2 \<le> depth"
  shows "(\<exists>rs t. oa_run depth hf rqs (oa_new n) = Some (Inr (rs, t)) \<and>
            (\<exists>b t'. oa_remove hf t k = Some (Inr (b, t')) \<and> (b \<longleftrightarrow> oa_present t k) \<and>
               (b \<longrightarrow> 0 < oa_size t \<and> oa_size t' = oa_size t - 1) \<and> (\<not> b \<longrightarrow> t' = t))) \<and>
         (\<exists>rs t. avlht_run depth hf rqs (avlht_new n) = Some (Inr (rs, t)) \<and>
            (\<exists>b t'. avlht_remove hf t k = Inr (b, t') \<and> (b \<longleftrightarrow> avlht_present t k) \<and>
               (b \<longrightarrow> 0 < avlht_size t \<and> avlht_size t' = avlht_size t - 1) \<and>
               (\<not> b \<longrightarrow> t' = t)))"
proof
  from oa_reachable[OF assms, of rqs] obtain rs t where
    run: "oa_run depth hf rqs (oa_new n) = Some (Inr (rs, t))" and inv: "oa_inv hf t" by blast
  from oa_remove_effect[OF assms(1) inv, of k] obtain b t' where
    r: "oa_remove hf t k = Some (Inr (b, t'))" "b \<longleftrightarrow> oa_map t k \<noteq> None"
      "b \<longrightarrow> 0 < current_size t \<and> current_size t' = current_size t - 1" "\<not> b \<longrightarrow> t' = t"
    by blast
  have "b \<longleftrightarrow> oa_present t k" using r(2) by (simp add: oa_present_iff)
  then have "\<exists>b t'. oa_remove hf t k = Some (Inr (b, t')) \<and> (b \<longleftrightarrow> oa_present t k) \<and>
               (b \<longrightarrow> 0 < oa_size t \<and> oa_size t' = oa_size t - 1) \<and> (\<not> b \<longrightarrow> t' = t)"
    using r(1,3,4) unfolding oa_size_def by blast
  then show "\<exists>rs t. oa_run depth hf rqs (oa_new n) = Some (Inr (rs, t)) \<and>
            (\<exists>b t'. oa_remove hf t k = Some (Inr (b, t')) \<and> (b \<longleftrightarrow> oa_present t k) \<and>
               (b \<longrightarrow> 0 < oa_size t \<and> oa_size t' = oa_size t - 1) \<and> (\<not> b \<longrightarrow> t' = t))"
    using run by blast
next
  from avlht_reachable[OF assms, of rqs] obtain rs t where
    run: "avlht_run depth hf rqs (avlht_new n) = Some (Inr (rs, t))" and inv: "avlht_inv hf t"
    by blast
  from avlht_remove_effect[OF assms(1) inv, of k] obtain b t' where
    r: "avlht_remove hf t k = Inr (b, t')" "b \<longleftrightarrow> avlht_map hf t k \<noteq> None"
      "b \<longrightarrow> 0 < current_size t \<and> current_size t' = current_size t - 1" "\<not> b \<longrightarrow> t' = t"
    by blast
  have "b \<longleftrightarrow> avlht_present t k" using r(2) avlht_present_iff[OF assms(1) inv, of k] by simp
  then have "\<exists>b t'. avlht_remove hf t k = Inr (b, t') \<and> (b \<longleftrightarrow> avlht_present t k) \<and>
               (b \<longrightarrow> 0 < avlht_size t \<and> avlht_size t' = avlht_size t - 1) \<and>
               (\<not> b \<longrightarrow> t' = t)"
    using r(1,3,4) unfolding avlht_size_def by blast
  then show "\<exists>rs t. avlht_run depth hf rqs (avlht_new n) = Some (Inr (rs, t)) \<and>
            (\<exists>b t'. avlht_remove hf t k = Inr (b, t') \<and> (b \<longleftrightarrow> avlht_present t k) \<and>
               (b \<longrightarrow> 0 < avlht_size t \<and> avlht_size t' = avlht_size t - 1) \<and>
               (\<not> b \<longrightarrow> t' = t))"
    using run by blast
qed

theorem C7_remove_flag_and_size_witness:
  "(\<exists>t'. oa_remove hash_function
        \<lparr>table = [\<lparr>key = 1, val = 10, state = OCCUPIED\<rparr>], table_size = Suc 0,
         current_size = Suc 0\<rparr> 1 = Some (Inr (True, t')) \<and> oa_size t' = 0) \<and>
   (\<exists>t'. avlht_remove hash_function
        \<lparr>table = [Node 1 10 2 Null (Node 2 20 1 Null Null)], table_size = Suc 0,
         current_size = Suc (Suc 0)\<rparr> 2 = Inr (True, t') \<and> avlht_size t' = 1)"
proof -
  have h: "(0::nat) < Suc 0" "2 \<le> Suc (Suc 0)" by simp_all
  let ?T = "\<lparr>table = [\<lparr>key = 1, val = 10, state = OCCUPIED\<rparr>], table_size = Suc 0,
         current_size = Suc 0\<rparr>"
  let ?U = "\<lparr>table = [Node 1 10 2 Null (Node 2 20 1 Null Null)], table_size = Suc 0,
         current_size = Suc (Suc 0)\<rparr>"
  from C7_remove_flag_and_size[OF hash_function_contract h, of "[Insert 1 10]" 1,
      THEN conjunct1]
  obtain rs t b t' where
    a: "oa_run (Suc (Suc 0)) hash_function [Insert 1 10] (oa_new (Suc 0)) = Some (Inr (rs, t))"
    and r: "oa_remove hash_function t 1 = Some (Inr (b, t'))" "b \<longleftrightarrow> oa_present t 1"
      "b \<longrightarrow> 0 < oa_size t \<and> oa_size t' = oa_size t - 1"
    by blast
  have t: "t = ?T" using a unfolding oa_run_example by simp
  have b: "b = True" using r(2) unfolding t by (simp add: oa_present_def live_def)
  have 1: "\<exists>t'. oa_remove hash_function ?T 1 = Some (Inr (True, t')) \<and> oa_size t' = 0"
    using r(1,3) unfolding t b by (simp add: oa_size_def)
  from C7_remove_flag_and_size[OF hash_function_contract h, of "[Insert 1 10, Insert 2 20]" 2,
      THEN conjunct2]
  obtain rs' u c u' where
    a': "avlht_run (Suc (Suc 0)) hash_function [Insert 1 10, Insert 2 20] (avlht_new (Suc 0)) =
           Some (Inr (rs', u))"
    and r': "avlht_remove hash_function u 2 = Inr (c, u')" "c \<longleftrightarrow> avlht_present u 2"
      "c \<longrightarrow> 0 < avlht_size u \<and> avlht_size u' = avlht_size u - 1"
    by blast
  have u: "u = ?U" using a' unfolding avlht_run_example by simp
  have c: "c = True" using r'(2) unfolding u by (simp add: avlht_present_def)
  have 2: "\<exists>t'. avlht_remove hash_function ?U 2 = Inr (True, t') \<and> avlht_size t' = 1"
    using r'(1,3) unfolding u c by (simp add: avlht_size_def)
  show ?thesis using 1 2 by blast
qed

text \<open>
  C8. On every table with positive capacity (the vector has \<open>table_size\<close> slots) and for
  every key, \<open>probe\<close> returns: it yields the index \<open>j\<close> steps after the hash of the key
  for some \<open>j\<close> of at most the capacity; each of the \<open>j\<close> slots before it was examined and
  passed over (it is \<open>DELETED\<close>, or \<open>OCCUPIED\<close> by another key); and when \<open>j\<close> is below the
  capacity the slot returned is \<open>EMPTY\<close> or \<open>OCCUPIED\<close> by the key. The starting index
  is returned for a full table only with \<open>j\<close> equal to the capacity, that is after all
  slots of the cycle were examined and passed over.
\<close>

theorem C8_probe_terminates:
  assumes "hash_contract hf" and "length (table t) = table_size t" and "0 < table_size t"
  shows "\<exists>h j. hf k (table_size t) = Inr h \<and> h < table_size t \<and> j \<le> table_size t \<and>
           probe hf t k = Some (Inr ((h + j) mod table_size t)) \<and>
           (\<forall>m<j. state (table t ! ((h + m) mod table_size t)) = DELETED \<or>
               (state (table t ! ((h + m) mod table_size t)) = OCCUPIED \<and>
                key (table t ! ((h + m) mod table_size t)) \<noteq> k)) \<and>
           (j < table_size t \<longrightarrow>
              state (table t ! ((h + j) mod table_size t)) = EMPTY \<or>
              (state (table t ! ((h + j) mod table_size t)) = OCCUPIED \<and>
               key (table t ! ((h + j) mod table_size t)) = k)) \<and>
           (j = table_size t \<longrightarrow> (h + j) mod table_size t = h)"
proof -
  from assms(1,3) obtain h where h: "hf k (table_size t) = Inr h" "h < table_size t"
    unfolding hash_contract_def by blast
  from probe_general[OF assms(2) h(2), of k] obtain j where
    j: "j \<le> table_size t"
      "probe_loop (table t) (table_size t) k h h = Some (Inr ((h + j) mod table_size t))"
      "\<forall>m<j. skip k (table t ! ((h + m) mod table_size t))"
      "j < table_size t \<longrightarrow> \<not> skip k (table t ! ((h + j) mod table_size t))"
    by blast
  have p: "probe hf t k = Some (Inr ((h + j) mod table_size t))"
    using h(1) j(2) by (simp add: probe_def)
  have sk: "\<And>e. skip k e \<longleftrightarrow> state e = DELETED \<or> (state e = OCCUPIED \<and> key e \<noteq> k)"
  proof -
    fix e show "skip k e \<longleftrightarrow> state e = DELETED \<or> (state e = OCCUPIED \<and> key e \<noteq> k)"
      by (cases "state e") (auto simp: skip_def)
  qed
  have ns: "\<And>e. \<not> skip k e \<longleftrightarrow> state e = EMPTY \<or> (state e = OCCUPIED \<and> key e = k)"
    using not_skip_iff by (simp add: live_def)
  have a: "\<forall>m<j. state (table t ! ((h + m) mod table_size t)) = DELETED \<or>
               (state (table t ! ((h + m) mod table_size t)) = OCCUPIED \<and>
                key (table t ! ((h + m) mod table_size t)) \<noteq> k)"
    using j(3) sk by simp
  have b: "j < table_size t \<longrightarrow>
              state (table t ! ((h + j) mod table_size t)) = EMPTY \<or>
              (state (table t ! ((h + j) mod table_size t)) = OCCUPIED \<and>
               key (table t ! ((h + j) mod table_size t)) = k)"
    using j(4) ns by simp
  have c: "j = table_size t \<longrightarrow> (h + j) mod table_size t = h" using h(2) by simp
  show ?thesis using h j(1) p a b c by blast
qed

theorem C8_probe_terminates_witness:
  "\<exists>h j. hash_function 5 (table_size (oa_new 4)) = Inr h \<and> j \<le> 4 \<and>
      probe hash_function (oa_new 4) 5 = Some (Inr ((h + j) mod 4))"
proof -
  have 1: "hash_contract hash_function" by (rule hash_function_contract)
  have 2: "length (table (oa_new 4)) = table_size (oa_new 4)" by (simp add: oa_new_def)
  have 3: "0 < table_size (oa_new 4)" by (simp add: oa_new_def)
  have 4: "table_size (oa_new 4) = 4" by (simp add: oa_new_def)
  show ?thesis using C8_probe_terminates[OF 1 2 3, of 5] unfolding 4 by blast
qed

text \<open>
  C9. For every integer key, negative keys included, and every positive capacity, both
  versions of \<open>hash_function\<close> return an index below the capacity without a fault; and the
  result is a function of key and capacity alone: equal arguments give equal indices.
\<close>

theorem C9_hash_in_range:
  assumes "0 < capacity"
  shows "(\<exists>i<capacity. hash_function k capacity = Inr i) \<and>
         (\<exists>i<capacity. hash_function_std std_hash k capacity = Inr i) \<and>
         (\<forall>k' capacity'. k' = k \<and> capacity' = capacity \<longrightarrow>
            hash_function k' capacity' = hash_function k capacity \<and>
            hash_function_std std_hash k' capacity' = hash_function_std std_hash k capacity)"
  using assms by (simp add: hash_function_def hash_function_std_def Let_def)

theorem C9_hash_in_range_witness:
  "(\<exists>i<8. hash_function (- 7) 8 = Inr i) \<and>
   (\<exists>i<8. hash_function_std (\<lambda>k. nat \<bar>k\<bar>) (- 7) 8 = Inr i) \<and>
   hash_function (- 7) 8 = Inr 1"
proof -
  have h: "(0::nat) < 8" by simp
  have e: "hash_function (- 7) 8 = Inr 1" by (simp add: hash_function_def)
  show ?thesis using C9_hash_in_range[OF h, of "- 7" "\<lambda>k. nat \<bar>k\<bar>"] e by blast
qed

text \<open>
  C10. A table constructed with capacity at least 1 keeps a positive capacity and a
  vector of exactly that many slots through every sequence of requests, and no request
  ends in a fault: no remainder by zero in \<open>hash_function\<close> and no slot index outside the
  vector. On a table constructed with capacity 0 the first \<open>insert\<close>, \<open>find\<close> or
  \<open>remove\<close> computes a remainder by zero.
\<close>

theorem C10_positive_capacity:
  assumes "hash_contract hf"
  shows "(0 < n \<and> 2 \<le> depth \<longrightarrow>
           (\<exists>rs t. oa_run depth hf rqs (oa_new n) = Some (Inr (rs, t)) \<and>
              0 < table_size t \<and> length (table t) = table_size t) \<and>
           (\<exists>rs t. avlht_run depth hf rqs (avlht_new n) = Some (Inr (rs, t)) \<and>
              0 < table_size t \<and> length (table t) = table_size t)) \<and>
         oa_insert (Suc d) hf (oa_new 0) k v = Some (Inl DivisionByZero) \<and>
         oa_find hf (oa_new 0) k = Some (Inl DivisionByZero) \<and>
         oa_remove hf (oa_new 0) k = Some (Inl DivisionByZero) \<and>
         avlht_insert (Suc d) hf (avlht_new 0) k v = Some (Inl DivisionByZero) \<and>
         avlht_find hf (avlht_new 0) k = Inl DivisionByZero \<and>
         avlht_remove hf (avlht_new 0) k = Inl DivisionByZero"
proof -
  have z: "\<And>k. hf k 0 = Inl DivisionByZero" using assms by (simp add: hash_contract_def)
  have pos: "0 < n \<and> 2 \<le> depth \<longrightarrow>
           (\<exists>rs t. oa_run depth hf rqs (oa_new n) = Some (Inr (rs, t)) \<and>
              0 < table_size t \<and> length (table t) = table_size t) \<and>
           (\<exists>rs t. avlht_run depth hf rqs (avlht_new n) = Some (Inr (rs, t)) \<and>
              0 < table_size t \<and> length (table t) = table_size t)"
  proof
    assume a: "0 < n \<and> 2 \<le> depth"
    from oa_reachable[OF assms, of n depth rqs] a obtain rs t where
      1: "oa_run depth hf rqs (oa_new n) = Some (Inr (rs, t))" "oa_inv hf t" by blast
    from avlht_reachable[OF assms, of n depth rqs] a obtain rs' t' where
      2: "avlht_run depth hf rqs (avlht_new n) = Some (Inr (rs', t'))" "avlht_inv hf t'" by blast
    have "0 < table_size t \<and> length (table t) = table_size t"
      using 1(2) by (simp add: oa_inv_def)
    moreover have "0 < table_size t' \<and> length (table t') = table_size t'"
      using 2(2) by (simp add: avlht_inv_def)
    ultimately show "(\<exists>rs t. oa_run depth hf rqs (oa_new n) = Some (Inr (rs, t)) \<and>
              0 < table_size t \<and> length (table t) = table_size t) \<and>
           (\<exists>rs t. avlht_run depth hf rqs (avlht_new n) = Some (Inr (rs, t)) \<and>
              0 < table_size t \<and> length (table t) = table_size t)"
      using 1(1) 2(1) by blast
  qed
  have p: "probe hf (oa_new 0) k = Some (Inl DivisionByZero)"
    by (simp add: probe_def oa_new_def z)
  have 1: "oa_insert (Suc d) hf (oa_new 0) k v = Some (Inl DivisionByZero)"
    using p by (simp add: oa_insert.simps oa_new_def)
  have 2: "oa_find hf (oa_new 0) k = Some (Inl DivisionByZero)"
    using p by (simp add: oa_find_def)
  have 3: "oa_remove hf (oa_new 0) k = Some (Inl DivisionByZero)"
    using p by (simp add: oa_remove_def)
  have 4: "avlht_insert (Suc d) hf (avlht_new 0) k v = Some (Inl DivisionByZero)"
    by (simp add: avlht_insert.simps avlht_new_def z)
  have 5: "avlht_find hf (avlht_new 0) k = Inl DivisionByZero"
    by (simp add: avlht_find_def avlht_new_def z)
  have 6: "avlht_remove hf (avlht_new 0) k = Inl DivisionByZero"
    by (simp add: avlht_remove_def avlht_new_def z)
  show ?thesis using pos 1 2 3 4 5 6 by blast
qed

theorem C10_positive_capacity_witness:
  "(\<exists>rs t. oa_run 2 hash_function [Insert 1 10, Find 1, Remove 1] (oa_new 1) = Some (Inr (rs, t)) \<and>
      0 < table_size t \<and> length (table t) = table_size t) \<and>
   (\<exists>rs t. avlht_run 2 hash_function [Insert 1 10, Find 1, Remove 1] (avlht_new 1) =
      Some (Inr (rs, t)) \<and> 0 < table_size t \<and> length (table t) = table_size t) \<and>
   oa_find hash_function (oa_new 0) 1 = Some (Inl DivisionByZero)"
proof -
  have h: "(0::nat) < 1 \<and> (2::nat) \<le> 2" by simp
  show ?thesis
    using C10_positive_capacity[OF hash_function_contract,
        of 1 2 "[Insert 1 10, Find 1, Remove 1]" 0 1 10] h
    by blast
qed

end
